theory Spec2Isabelle
  imports Complex_Main "HOL-Library.Multiset" "HOL-Library.AList"
begin

section \<open>RebarOpt: the splice planner and the cutting optimizer of \<open>utils/solver.ts\<close>\<close>

text \<open>
  Lengths, diameters and the settings are the integer millimetre values the application
  reads with \<open>parseInt\<close>; they are modelled as \<^typ>\<open>int\<close>. Splice zones are computed
  upstream as quarters and thirds of segment lengths and the planner halves the lap
  length, so zone bounds and the intermediate splice positions are \<^typ>\<open>rat\<close>.
  Quantities that bound a counting loop are \<^typ>\<open>nat\<close>. Fields with the same name in
  different interfaces carry a prefix naming their interface. Fields the solver never
  reads (\<open>projectName\<close>, \<open>units\<close>, \<open>allowOffcuts\<close>, \<open>beamDepthMm\<close>,
  \<open>maxDistinctPatterns\<close>, \<open>maxTransportLength\<close>, \<open>geometryInput\<close>) are left out.
\<close>

subsection \<open>Data model (\<open>types.ts\<close>)\<close>

datatype MemberType = COLUMN | BEAM | SLAB | WALL | OTHER

datatype LapCase =
  COLUMN_VERTICAL | BEAM_TOP | BEAM_BOTTOM | SLAB_TOP | SLAB_BOTTOM | OTHER_LAP

datatype OptimizationLevel = FAST | BALANCED | DEEP

datatype InventoryStrategy = SEQUENTIAL | MIXED

record ProjectSettings =
  roundingStepMm :: int
  kerfMm :: int
  minLeftoverMm :: int
  optimizationLevel :: OptimizationLevel
  inventoryStrategy :: InventoryStrategy

record StockCatalogItem =
  stock_dia :: int
  stockLengths :: "int list"

record OffcutInventoryItem =
  inv_id :: string
  inv_dia :: int
  inv_lengthMm :: int
  quantity :: nat

record LapRule =
  rule_dia :: int
  rule_lapCase :: LapCase
  rule_lengthMm :: int

record SpliceZone =
  zone_startMm :: rat
  zone_endMm :: rat

record BarRun =
  run_id :: string
  run_barMark :: string
  memberType :: MemberType
  run_dia :: int
  qtyParallel :: nat
  totalLengthMm :: int
  run_lapCase :: LapCase
  allowedZones :: "SpliceZone list"

record DirectPiece =
  dp_id :: string
  dp_barMark :: string
  dp_dia :: int
  dp_lengthMm :: int
  dp_qty :: nat

record Piece =
  lengthMm :: int
  startMm :: int
  endMm :: int

record SplicePlanItem =
  runId :: string
  barMark :: string
  groupId :: int
  pieces :: "Piece list"

text \<open>
  The solver throws \<open>Error\<close> objects told apart by their message only; each message
  is a constructor carrying the values the message prints. \<open>CutLengthNaN\<close> is no
  \<open>Error\<close> of the source: it marks the run, by its bar mark, whose cut length the source
  computes as \<open>NaN\<close> (see \<open>roundCut\<close> and \<open>spliceLoop\<close>), a length the integer
  lengths of this model cannot hold. A structural warning is the bar mark, the rounded
  splice location and the stock length of its message.
\<close>

datatype SolverError =
  StockCatalogEmpty
  | LapGeStock int int int
  | InfiniteLoopDetected string int int
  | CutLengthNaN string

datatype Warning = StructuralWarning string int int

subsection \<open>Helpers\<close>

definition getLapLength :: "int \<Rightarrow> LapCase \<Rightarrow> LapRule list \<Rightarrow> int" where
  "getLapLength dia lapCase rules =
     (case find (\<lambda>r. rule_dia r = dia \<and> rule_lapCase r = lapCase) rules of
        Some rule \<Rightarrow> rule_lengthMm rule
      | None \<Rightarrow> 50 * dia)"

text \<open>\<open>sort((a, b) => b - a)\<close> is a stable descending sort.\<close>

definition getStockOptions :: "int \<Rightarrow> StockCatalogItem list \<Rightarrow> int list" where
  "getStockOptions dia catalog =
     (case find (\<lambda>i. stock_dia i = dia) catalog of
        None \<Rightarrow> [12000]
      | Some item \<Rightarrow>
          if stockLengths item = [] then [12000]
          else sort_key uminus (stockLengths item))"

subsection \<open>Phase 1: splice planning\<close>

text \<open>
  The zone search of one CONTINUE step: the first zone containing the splice centre
  target, else the zone ending furthest among those ending before
  \<open>currentAbsPos + effectiveStock\<close> (\<open>reduce\<close> without a start value keeps the earlier
  zone on a tie), else none.
\<close>

definition findBestZone :: "SpliceZone list \<Rightarrow> rat \<Rightarrow> rat \<Rightarrow> SpliceZone option" where
  "findBestZone zones spliceCenterTarget reach =
     (case find (\<lambda>z. zone_startMm z \<le> spliceCenterTarget \<and> zone_endMm z \<ge> spliceCenterTarget) zones of
        Some z \<Rightarrow> Some z
      | None \<Rightarrow>
          (case filter (\<lambda>z. zone_endMm z < reach) zones of
             [] \<Rightarrow> None
           | v # validZones \<Rightarrow>
               Some (foldl (\<lambda>prev curr. if zone_endMm curr > zone_endMm prev then curr else prev)
                       v validZones)))"

text \<open>
  The cut length of one CONTINUE step before rounding, with the violation flag.
  \<open>lap / 2\<close> is exact on rationals.
\<close>

definition proposeCut :: "SpliceZone list \<Rightarrow> int \<Rightarrow> int \<Rightarrow> int \<Rightarrow> rat \<times> bool" where
  "proposeCut zones lap effectiveStock currentAbsPos =
     (let half = of_int lap / 2;
          cur = of_int currentAbsPos;
          stock = of_int effectiveStock;
          spliceCenterTarget = cur + stock - half
      in case findBestZone zones spliceCenterTarget (cur + stock) of
           Some bestZone \<Rightarrow>
             (let zoneMid = (zone_startMm bestZone + zone_endMm bestZone) / 2;
                  c1 = (if zone_endMm bestZone - zone_startMm bestZone > 1000
                        then zone_endMm bestZone - half - 100 else zoneMid);
                  proposedSpliceCenter = (if c1 + half - cur > stock then cur + stock - half else c1)
              in ((proposedSpliceCenter + half) - cur, False))
         | None \<Rightarrow> (stock, True))"

text \<open>
  \<open>Math.floor(actualCutLen / step) * step\<close>, then the 1000 mm minimum. With a rounding
  step of 0 the quotient is an infinity or \<open>NaN\<close>, its product with 0 is \<open>NaN\<close>, and
  since \<open>NaN < 1000\<close> is false the cut length stays \<open>NaN\<close>: that is \<open>None\<close>. For any
  other step the quotient is taken exactly; the double the source computes has the
  same floor for every length a bar can have.
\<close>

definition roundCut :: "int \<Rightarrow> rat \<Rightarrow> int option" where
  "roundCut step actualCutLen =
     (if step = 0 then None
      else Some (let r = \<lfloor>actualCutLen / of_int step\<rfloor> * step in if r < 1000 then 1000 else r))"

definition actualCutLen :: "SpliceZone list \<Rightarrow> int \<Rightarrow> int \<Rightarrow> int \<Rightarrow> int \<Rightarrow> int option" where
  "actualCutLen zones lap effectiveStock step currentAbsPos =
     roundCut step (fst (proposeCut zones lap effectiveStock currentAbsPos))"

definition violation :: "SpliceZone list \<Rightarrow> int \<Rightarrow> int \<Rightarrow> int \<Rightarrow> bool" where
  "violation zones lap effectiveStock currentAbsPos =
     snd (proposeCut zones lap effectiveStock currentAbsPos)"

text \<open>\<open>Math.round\<close> rounds a half upwards.\<close>

definition mathRound :: "rat \<Rightarrow> int" where
  "mathRound x = \<lfloor>x + 1 / 2\<rfloor>"

text \<open>
  The \<open>while (remainingTotal > 0)\<close> loop of one run. The FINISH branch sets
  \<open>remainingTotal\<close> to 0, which ends the loop; the CONTINUE branch throws when the
  piece does not advance, and otherwise goes round again. When the cut length is
  \<open>NaN\<close> the source pushes a piece of that length, does not throw (\<open>NaN <= 0\<close> is
  false) and leaves the loop (\<open>NaN > 0\<close> is false), so the run ends with a piece
  without a length; the model ends the run with \<open>CutLengthNaN\<close> there and says
  nothing about such a plan.
\<close>

function spliceLoop ::
  "string \<Rightarrow> SpliceZone list \<Rightarrow> int \<Rightarrow> int \<Rightarrow> int \<Rightarrow> int \<Rightarrow> int \<Rightarrow> Piece list \<Rightarrow> Warning list
     \<Rightarrow> SolverError + (Piece list \<times> Warning list)" where
  "spliceLoop mark zones lap effectiveStock step currentAbsPos remainingTotal groupPieces warnings =
     (if remainingTotal > 0 then
        if remainingTotal \<le> effectiveStock then
          Inr (groupPieces @ [\<lparr>lengthMm = remainingTotal, startMm = currentAbsPos,
                               endMm = currentAbsPos + remainingTotal\<rparr>], warnings)
        else
          case actualCutLen zones lap effectiveStock step currentAbsPos of
            None \<Rightarrow> Inl (CutLengthNaN mark)
          | Some cutLen \<Rightarrow>
              let warnings' =
                    (if violation zones lap effectiveStock currentAbsPos
                     then warnings @ [StructuralWarning mark
                            (mathRound (of_int currentAbsPos + of_int cutLen - of_int lap / 2))
                            effectiveStock]
                     else warnings);
                  groupPieces' = groupPieces @ [\<lparr>lengthMm = cutLen, startMm = currentAbsPos,
                                                  endMm = currentAbsPos + cutLen\<rparr>];
                  advanceBy = cutLen - lap
              in if advanceBy \<le> 0 then Inl (InfiniteLoopDetected mark cutLen lap)
                 else spliceLoop mark zones lap effectiveStock step (currentAbsPos + advanceBy)
                        (remainingTotal - advanceBy) groupPieces' warnings'
      else Inr (groupPieces, warnings))"
  by pat_completeness auto
termination
  by (relation "measure (\<lambda>(mark, zones, lap, effectiveStock, step, currentAbsPos, remainingTotal,
                           groupPieces, warnings). nat remainingTotal)") auto

declare spliceLoop.simps [simp del]

text \<open>The body of \<open>runs.forEach\<close>: one run, given the warnings gathered so far.\<close>

definition spliceRun ::
  "LapRule list \<Rightarrow> StockCatalogItem list \<Rightarrow> ProjectSettings \<Rightarrow> BarRun \<Rightarrow> Warning list
     \<Rightarrow> SolverError + (SplicePlanItem \<times> Warning list)" where
  "spliceRun rules catalog settings run warnings =
     (let lap = getLapLength (run_dia run) (run_lapCase run) rules;
          maxStock = hd (getStockOptions (run_dia run) catalog)
      in if lap \<ge> maxStock then Inl (LapGeStock lap maxStock (run_dia run))
         else
           case spliceLoop (run_barMark run) (allowedZones run) lap maxStock
                  (roundingStepMm settings) 0 (totalLengthMm run) [] warnings of
             Inl e \<Rightarrow> Inl e
           | Inr (groupPieces, warnings') \<Rightarrow>
               Inr (\<lparr>runId = run_id run, barMark = run_barMark run, groupId = 0,
                     pieces = groupPieces\<rparr>, warnings'))"

fun generateSplicePlanFrom ::
  "LapRule list \<Rightarrow> StockCatalogItem list \<Rightarrow> ProjectSettings \<Rightarrow> BarRun list
     \<Rightarrow> SplicePlanItem list \<Rightarrow> Warning list
     \<Rightarrow> SolverError + (SplicePlanItem list \<times> Warning list)" where
  "generateSplicePlanFrom rules catalog settings [] plan warnings = Inr (plan, warnings)"
| "generateSplicePlanFrom rules catalog settings (run # runs) plan warnings =
     (case spliceRun rules catalog settings run warnings of
        Inl e \<Rightarrow> Inl e
      | Inr (item, warnings') \<Rightarrow>
          generateSplicePlanFrom rules catalog settings runs (plan @ [item]) warnings')"

definition generateSplicePlan ::
  "BarRun list \<Rightarrow> LapRule list \<Rightarrow> StockCatalogItem list \<Rightarrow> ProjectSettings
     \<Rightarrow> SolverError + (SplicePlanItem list \<times> Warning list)" where
  "generateSplicePlan runs rules catalog settings =
     generateSplicePlanFrom rules catalog settings runs [] []"

subsection \<open>Phase 2: cutting optimization\<close>

record CutReq =
  req_dia :: int
  req_len :: int
  req_source :: string
  req_id :: string

record Bin =
  stockLength :: int
  remaining :: int
  cuts :: "int list"
  isInventory :: bool

record AvailableStockOption =
  opt_len :: int
  opt_isInventory :: bool
  opt_id :: "string option"

text \<open>
  Numbers printed inside template strings: decimal digits, a minus sign when negative.
  The digits are computed on \<^typ>\<open>int\<close>; a counter is a number like any other.
\<close>

function showDigits :: "int \<Rightarrow> string" where
  "showDigits i =
     (if i < 10 then [''0123456789'' ! nat i]
      else showDigits (i div 10) @ [''0123456789'' ! nat (i mod 10)])"
  by pat_completeness auto
termination
  by (relation "measure nat") auto

declare showDigits.simps [simp del]

definition showNat :: "nat \<Rightarrow> string" where
  "showNat n = showDigits (int n)"

definition showInt :: "int \<Rightarrow> string" where
  "showInt i = (if i < 0 then CHR ''-'' # showDigits (- i) else showDigits i)"

text \<open>
  The best-fit search over the open bins. \<open>bestBinIndex = -1\<close> with
  \<open>minRem = Number.MAX_VALUE\<close> is \<open>None\<close>; a found bin is its index with its
  residual. The comparison is strict, so the earliest bin wins a tie.
\<close>

fun bestBinSearch :: "Bin list \<Rightarrow> int \<Rightarrow> nat \<Rightarrow> (nat \<times> int) option \<Rightarrow> (nat \<times> int) option" where
  "bestBinSearch [] needed i best = best"
| "bestBinSearch (b # bs) needed i best =
     (let rem = remaining b - needed
      in bestBinSearch bs needed (Suc i)
           (if rem \<ge> 0 \<and> (case best of None \<Rightarrow> True | Some (_, minRem) \<Rightarrow> rem < minRem)
            then Some (i, rem) else best))"

definition bestBin :: "Bin list \<Rightarrow> int \<Rightarrow> nat option" where
  "bestBin bins needed = map_option fst (bestBinSearch bins needed 0 None)"

definition addCut :: "Bin list \<Rightarrow> nat \<Rightarrow> int \<Rightarrow> int \<Rightarrow> Bin list" where
  "addCut bins i needed l =
     bins[i := (bins ! i)\<lparr>remaining := remaining (bins ! i) - needed,
                            cuts := cuts (bins ! i) @ [l]\<rparr>]"

text \<open>
  An option is skipped when it is inventory, has a non-empty id and that id is used.
  In the search over the options \<open>bestStockOpt = null\<close> with
  \<open>bestStockRem = Number.MAX_VALUE\<close> is \<open>None\<close>; here too the comparison is
  strict, so the earliest option wins a tie.
\<close>

definition skipUsed :: "string set \<Rightarrow> AvailableStockOption \<Rightarrow> bool" where
  "skipUsed usedInventoryIds opt =
     (opt_isInventory opt \<and>
      (case opt_id opt of None \<Rightarrow> False | Some i \<Rightarrow> i \<noteq> [] \<and> i \<in> usedInventoryIds))"

fun bestStockSearch ::
  "AvailableStockOption list \<Rightarrow> string set \<Rightarrow> int \<Rightarrow> (AvailableStockOption \<times> int) option
     \<Rightarrow> (AvailableStockOption \<times> int) option" where
  "bestStockSearch [] used needed best = best"
| "bestStockSearch (opt # opts) used needed best =
     (if skipUsed used opt then bestStockSearch opts used needed best
      else
        let potentialRem = opt_len opt - needed
        in bestStockSearch opts used needed
             (if potentialRem \<ge> 0 \<and>
                 (case best of None \<Rightarrow> True | Some (_, bestStockRem) \<Rightarrow> potentialRem < bestStockRem)
              then Some (opt, potentialRem) else best))"

text \<open>The fallback: the longest new-stock option, if there is any new-stock option.\<close>

definition largestNewStock :: "AvailableStockOption list \<Rightarrow> AvailableStockOption option" where
  "largestNewStock stockOptions =
     (case sort_key (\<lambda>opt. - opt_len opt) (filter (\<lambda>opt. \<not> opt_isInventory opt) stockOptions) of
        [] \<Rightarrow> None
      | opt # _ \<Rightarrow> Some opt)"

definition chooseStock ::
  "AvailableStockOption list \<Rightarrow> string set \<Rightarrow> int \<Rightarrow> AvailableStockOption option" where
  "chooseStock stockOptions used needed =
     (case bestStockSearch stockOptions used needed None of
        Some (opt, _) \<Rightarrow> Some opt
      | None \<Rightarrow> largestNewStock stockOptions)"

definition markUsed :: "AvailableStockOption \<Rightarrow> string set \<Rightarrow> string set" where
  "markUsed opt used =
     (case opt_id opt of
        Some i \<Rightarrow> if opt_isInventory opt \<and> i \<noteq> [] then insert i used else used
      | None \<Rightarrow> used)"

text \<open>
  One round of \<open>for (const req of requests)\<close> on the pair of \<open>bins\<close> and
  \<open>usedInventoryIds\<close>. When no option is chosen the body does nothing: there is no
  \<open>else\<close> to \<open>if (bestStockOpt)\<close> and nothing is thrown.
\<close>

definition packRequest ::
  "AvailableStockOption list \<Rightarrow> int \<Rightarrow> Bin list \<times> string set \<Rightarrow> CutReq \<Rightarrow> Bin list \<times> string set" where
  "packRequest stockOptions kerf st req =
     (let bins = fst st; used = snd st; needed = req_len req + kerf
      in case bestBin bins needed of
           Some bestBinIndex \<Rightarrow> (addCut bins bestBinIndex needed (req_len req), used)
         | None \<Rightarrow>
             (case chooseStock stockOptions used needed of
                Some bestStockOpt \<Rightarrow>
                  (bins @ [\<lparr>stockLength = opt_len bestStockOpt,
                             remaining = opt_len bestStockOpt - needed,
                             cuts = [req_len req],
                             isInventory = opt_isInventory bestStockOpt\<rparr>],
                   markUsed bestStockOpt used)
              | None \<Rightarrow> (bins, used)))"

text \<open>
  The pass folds the round over the requests. The \<open>totalWaste\<close> it computes at its
  end is not returned and is left out.
\<close>

record PackResult =
  bins :: "Bin list"
  stockCount :: nat
  usedInventoryIds :: "string set"

definition packingPass :: "CutReq list \<Rightarrow> AvailableStockOption list \<Rightarrow> int \<Rightarrow> PackResult" where
  "packingPass requests stockOptions kerf =
     (let st = foldl (packRequest stockOptions kerf) ([], {}) requests
      in \<lparr>bins = fst st, stockCount = length (fst st), usedInventoryIds = snd st\<rparr>)"

subsection \<open>Inventory first: \<open>consumeInventorySequential\<close>\<close>

record Offcut =
  oc_len :: int
  oc_id :: string

text \<open>Every inventory row becomes \<open>quantity\<close> units with the ids \<open>id-0\<close>, \<open>id-1\<close>, ...\<close>

definition flattenInventory :: "OffcutInventoryItem list \<Rightarrow> Offcut list" where
  "flattenInventory inventory =
     concat (map (\<lambda>inv. map (\<lambda>i. \<lparr>oc_len = inv_lengthMm inv,
                                       oc_id = inv_id inv @ ''-'' @ showNat i\<rparr>)
                            [0..<quantity inv]) inventory)"

fun bestOffcutSearch ::
  "Offcut list \<Rightarrow> nat set \<Rightarrow> int \<Rightarrow> nat \<Rightarrow> (nat \<times> int) option \<Rightarrow> (nat \<times> int) option" where
  "bestOffcutSearch [] usedOffcutIndices needed i best = best"
| "bestOffcutSearch (oc # ocs) usedOffcutIndices needed i best =
     (if i \<in> usedOffcutIndices then bestOffcutSearch ocs usedOffcutIndices needed (Suc i) best
      else
        let rem = oc_len oc - needed
        in bestOffcutSearch ocs usedOffcutIndices needed (Suc i)
             (if rem \<ge> 0 \<and> (case best of None \<Rightarrow> True | Some (_, minRem) \<Rightarrow> rem < minRem)
              then Some (i, rem) else best))"

text \<open>
  One round of the loop over the sorted requests, on the triple of \<open>inventoryBins\<close>,
  \<open>remainingRequests\<close> and \<open>usedOffcutIndices\<close>.
\<close>

definition consumeRequest ::
  "Offcut list \<Rightarrow> int \<Rightarrow> Bin list \<times> CutReq list \<times> nat set \<Rightarrow> CutReq
     \<Rightarrow> Bin list \<times> CutReq list \<times> nat set" where
  "consumeRequest availableOffcuts kerf st req =
     (let inventoryBins = fst st; remainingRequests = fst (snd st);
          usedOffcutIndices = snd (snd st); needed = req_len req + kerf
      in case bestBin inventoryBins needed of
           Some bestBinIdx \<Rightarrow>
             (addCut inventoryBins bestBinIdx needed (req_len req), remainingRequests,
              usedOffcutIndices)
         | None \<Rightarrow>
             (case bestOffcutSearch availableOffcuts usedOffcutIndices needed 0 None of
                Some (bestOffcutIndex, minRem) \<Rightarrow>
                  (inventoryBins @ [\<lparr>stockLength = oc_len (availableOffcuts ! bestOffcutIndex),
                                      remaining = minRem,
                                      cuts = [req_len req],
                                      isInventory = True\<rparr>],
                   remainingRequests, insert bestOffcutIndex usedOffcutIndices)
              | None \<Rightarrow> (inventoryBins, remainingRequests @ [req], usedOffcutIndices)))"

text \<open>\<open>sort((a, b) => b.len - a.len)\<close>: stable, longest request first.\<close>

definition sortDescending :: "CutReq list \<Rightarrow> CutReq list" where
  "sortDescending requests = sort_key (\<lambda>r. - req_len r) requests"

definition consumeInventorySequential ::
  "CutReq list \<Rightarrow> OffcutInventoryItem list \<Rightarrow> ProjectSettings \<Rightarrow> Bin list \<times> CutReq list" where
  "consumeInventorySequential requests inventory settings =
     (let availableOffcuts = sort_key oc_len (flattenInventory inventory);
          st = foldl (consumeRequest availableOffcuts (kerfMm settings)) ([], [], {})
                 (sortDescending requests)
      in (fst st, fst (snd st)))"

subsection \<open>The Monte Carlo driver\<close>

text \<open>
  \<open>Math.random()\<close> is the sequence \<open>rnd\<close> of its successive results together with
  the number \<open>c\<close> of results taken so far; every function that draws returns the new
  count. A result lies in \<open>[0, 1)\<close>, so the index \<open>j\<close> of a swap is at most \<open>k\<close>.
\<close>

fun fisherYates :: "(nat \<Rightarrow> rat) \<Rightarrow> nat \<Rightarrow> nat \<Rightarrow> 'a list \<Rightarrow> 'a list \<times> nat" where
  "fisherYates rnd c 0 shuffled = (shuffled, c)"
| "fisherYates rnd c (Suc k) shuffled =
     (let j = nat \<lfloor>rnd c * of_nat (Suc k + 1)\<rfloor>
      in fisherYates rnd (Suc c) k (shuffled[Suc k := shuffled ! j, j := shuffled ! Suc k]))"

definition shuffle :: "(nat \<Rightarrow> rat) \<Rightarrow> nat \<Rightarrow> 'a list \<Rightarrow> 'a list \<times> nat" where
  "shuffle rnd c requests = fisherYates rnd c (length requests - 1) requests"

definition wasteOf :: "Bin list \<Rightarrow> int" where
  "wasteOf bs = sum_list (map remaining bs)"

definition iterations :: "ProjectSettings \<Rightarrow> nat" where
  "iterations settings =
     (case optimizationLevel settings of FAST \<Rightarrow> 1 | BALANCED \<Rightarrow> 50 | DEEP \<Rightarrow> 200)"

text \<open>
  The \<open>for (let i = 0; i < iterations; i++)\<close> loop, counted by the rounds still to
  run; the state is \<open>bestBins\<close> with \<open>minWaste\<close>.
\<close>

fun monteCarloLoop ::
  "(nat \<Rightarrow> rat) \<Rightarrow> CutReq list \<Rightarrow> AvailableStockOption list \<Rightarrow> int \<Rightarrow> nat \<Rightarrow> nat
     \<Rightarrow> Bin list \<times> int \<Rightarrow> (Bin list \<times> int) \<times> nat" where
  "monteCarloLoop rnd requests stockOptions kerf 0 c best = (best, c)"
| "monteCarloLoop rnd requests stockOptions kerf (Suc n) c best =
     (let sh = shuffle rnd c requests;
          res = packingPass (fst sh) stockOptions kerf;
          waste = wasteOf (bins res)
      in monteCarloLoop rnd requests stockOptions kerf n (snd sh)
           (if waste < snd best then (bins res, waste) else best))"

definition performMonteCarlo ::
  "(nat \<Rightarrow> rat) \<Rightarrow> nat \<Rightarrow> CutReq list \<Rightarrow> AvailableStockOption list \<Rightarrow> ProjectSettings
     \<Rightarrow> Bin list \<times> nat" where
  "performMonteCarlo rnd c requests stockOptions settings =
     (let initialRes = packingPass (sortDescending requests) stockOptions (kerfMm settings);
          initialWaste = wasteOf (bins initialRes);
          r = monteCarloLoop rnd requests stockOptions (kerfMm settings) (iterations settings) c
                (bins initialRes, initialWaste)
      in (fst (fst r), snd r))"

subsection \<open>One diameter: \<open>optimizeDiaGroup\<close>\<close>

definition newStockOptions :: "int list \<Rightarrow> AvailableStockOption list" where
  "newStockOptions stockOptions =
     map (\<lambda>s. \<lparr>opt_len = s, opt_isInventory = False, opt_id = None\<rparr>) stockOptions"

definition inventoryOptions :: "OffcutInventoryItem list \<Rightarrow> AvailableStockOption list" where
  "inventoryOptions inventory =
     concat (map (\<lambda>inv. map (\<lambda>i. \<lparr>opt_len = inv_lengthMm inv, opt_isInventory = True,
                                       opt_id = Some (inv_id inv @ ''-'' @ showNat i)\<rparr>)
                            [0..<quantity inv]) inventory)"

text \<open>
  The settings type makes \<open>inventoryStrategy\<close> mandatory, so the test
  \<open>=== 'SEQUENTIAL' || !settings.inventoryStrategy\<close> is the test for \<open>SEQUENTIAL\<close>.
\<close>

definition optimizeDiaGroup ::
  "(nat \<Rightarrow> rat) \<Rightarrow> nat \<Rightarrow> CutReq list \<Rightarrow> int list \<Rightarrow> ProjectSettings \<Rightarrow> OffcutInventoryItem list
     \<Rightarrow> Bin list \<times> nat" where
  "optimizeDiaGroup rnd c requests stockOptions settings inventory =
     (if inventoryStrategy settings = SEQUENTIAL then
        let seq = consumeInventorySequential requests inventory settings;
            inventoryBins = fst seq; remainingRequests = snd seq
        in if remainingRequests = [] then (inventoryBins, c)
           else
             let res = performMonteCarlo rnd c remainingRequests (newStockOptions stockOptions) settings
             in (inventoryBins @ fst res, snd res)
      else
        performMonteCarlo rnd c requests
          (newStockOptions stockOptions @ inventoryOptions inventory) settings)"

subsection \<open>Floating point numbers\<close>

text \<open>
  The weight and the waste percentage are not integers: the source computes them in
  double precision. A double is the rational number it denotes, and \<open>nearestDouble\<close>
  rounds the exact result of an operation to the nearest double, a tie to the even
  significand of 53 bits, as every operation of the source does; the numbers here are
  far from the ends of the exponent range, which is left out. \<open>bitlen\<close> is the number
  of binary digits of a positive integer, \<open>ilog2\<close> the exponent of the power of two at
  or below a positive rational. A division whose divisor is 0 gives \<open>NaN\<close> or an
  infinity and no number: \<open>None\<close>.
\<close>

function bitlen :: "int \<Rightarrow> int" where
  "bitlen i = (if i \<le> 0 then 0 else 1 + bitlen (i div 2))"
  by pat_completeness auto
termination
  by (relation "measure nat") auto

declare bitlen.simps [simp del]

definition pow2 :: "int \<Rightarrow> rat" where
  "pow2 e = (if 0 \<le> e then 2 ^ nat e else 1 / 2 ^ nat (- e))"

definition ilog2 :: "rat \<Rightarrow> int" where
  "ilog2 x =
     (let e0 = bitlen (fst (quotient_of x)) - bitlen (snd (quotient_of x))
      in if pow2 e0 \<le> x then e0 else e0 - 1)"

definition nearestDouble :: "rat \<Rightarrow> rat" where
  "nearestDouble x =
     (if x = 0 then 0
      else
        let a = \<bar>x\<bar>;
            u = pow2 (ilog2 a - 52);
            q = a / u;
            n = \<lfloor>q\<rfloor>;
            r = q - of_int n;
            m = (if r < 1 / 2 then n else if 1 / 2 < r then n + 1
                 else if even n then n else n + 1)
        in sgn x * (of_int m * u))"

definition jsDivide :: "rat \<Rightarrow> rat \<Rightarrow> rat option" where
  "jsDivide a b = (if b = 0 then None else Some (nearestDouble (a / b)))"

text \<open>\<open>Math.round(x * 100) / 100\<close> on a double.\<close>

definition roundCents :: "rat \<Rightarrow> rat" where
  "roundCents x = nearestDouble (of_int (mathRound (nearestDouble (x * 100))) / 100)"

subsection \<open>Aggregation: \<open>optimizeCutting\<close> and \<open>runSolver\<close>\<close>

datatype SourceType = NEW_STOCK | EXISTING_INVENTORY

record CuttingPlanItem =
  cp_dia :: int
  cp_stockLength :: int
  cp_count :: nat
  cp_cuts :: "int list"
  waste :: int
  offcut :: int
  sourceType :: SourceType

record ProcurementItem =
  proc_dia :: int
  proc_stockLength :: int
  proc_quantity :: nat
  totalLength :: int

record Pattern =
  pat_count :: nat
  pat_cuts :: "int list"
  pat_remaining :: int
  pat_stock :: int
  pat_isInventory :: bool

text \<open>The requests of one splice plan item: every piece, \<open>qtyParallel\<close> times.\<close>

definition spliceRequests :: "BarRun list \<Rightarrow> SplicePlanItem \<Rightarrow> CutReq list" where
  "spliceRequests runs sp =
     (case find (\<lambda>r. run_id r = runId sp) runs of
        None \<Rightarrow> []
      | Some run \<Rightarrow>
          if qtyParallel run > 0 then
            concat (map (\<lambda>(idx, p).
                      map (\<lambda>i. \<lparr>req_dia = run_dia run, req_len = lengthMm p,
                                 req_source = run_barMark run,
                                 req_id = runId sp @ ''-G'' @ showInt (groupId sp) @ ''-P''
                                            @ showNat idx @ ''-'' @ showNat i\<rparr>)
                          [0..<qtyParallel run])
                    (enumerate 0 (pieces sp)))
          else [])"

definition directRequests :: "DirectPiece list \<Rightarrow> CutReq list" where
  "directRequests directPieces =
     concat (map (\<lambda>(idx, dp).
               map (\<lambda>i. \<lparr>req_dia = dp_dia dp, req_len = dp_lengthMm dp,
                          req_source = dp_barMark dp,
                          req_id = ''D'' @ showNat idx @ ''-'' @ showNat i\<rparr>)
                   [0..<dp_qty dp])
             (enumerate 0 directPieces))"

definition allRequests :: "SplicePlanItem list \<Rightarrow> DirectPiece list \<Rightarrow> BarRun list \<Rightarrow> CutReq list" where
  "allRequests splicePlan directPieces runs =
     concat (map (spliceRequests runs) splicePlan) @ directRequests directPieces"

text \<open>The distinct diameters of the requests, ascending.\<close>

definition uniqueDias :: "CutReq list \<Rightarrow> int list" where
  "uniqueDias reqs = sort (remdups (map req_dia reqs))"

fun joinWith :: "string \<Rightarrow> string list \<Rightarrow> string" where
  "joinWith sep [] = []"
| "joinWith sep [x] = x"
| "joinWith sep (x # y # ys) = x @ sep @ joinWith sep (y # ys)"

definition sortedCuts :: "Bin \<Rightarrow> int list" where
  "sortedCuts b = sort_key uminus (cuts b)"

definition patternKey :: "Bin \<Rightarrow> string" where
  "patternKey b =
     (if isInventory b then ''INV'' else ''NEW'') @ ''|'' @ showInt (stockLength b) @ ''|''
       @ joinWith ''-'' (map showInt (sortedCuts b))"

text \<open>
  \<open>patternMap\<close> and \<open>stockLenGroups\<close> are \<open>Map\<close>s, which keep their keys in the
  order of first insertion: association lists, where \<open>set\<close> on a present key
  replaces the value in place and on a new key appends.
\<close>

definition addPattern :: "(string \<times> Pattern) list \<Rightarrow> Bin \<Rightarrow> (string \<times> Pattern) list" where
  "addPattern patternMap b =
     (case map_of patternMap (patternKey b) of
        Some val \<Rightarrow> AList.update (patternKey b) (val\<lparr>pat_count := pat_count val + 1\<rparr>) patternMap
      | None \<Rightarrow>
          AList.update (patternKey b)
            \<lparr>pat_count = 1, pat_cuts = sortedCuts b, pat_remaining = max 0 (remaining b),
             pat_stock = stockLength b, pat_isInventory = isInventory b\<rparr> patternMap)"

definition cuttingItem :: "ProjectSettings \<Rightarrow> int \<Rightarrow> Pattern \<Rightarrow> CuttingPlanItem" where
  "cuttingItem settings dia val =
     (let isOffcut = pat_remaining val \<ge> minLeftoverMm settings
      in \<lparr>cp_dia = dia, cp_stockLength = pat_stock val, cp_count = pat_count val,
          cp_cuts = pat_cuts val,
          waste = (if isOffcut then 0 else pat_remaining val),
          offcut = (if isOffcut then pat_remaining val else 0),
          sourceType = (if pat_isInventory val then EXISTING_INVENTORY else NEW_STOCK)\<rparr>)"

definition cuttingItems :: "ProjectSettings \<Rightarrow> int \<Rightarrow> Bin list \<Rightarrow> CuttingPlanItem list" where
  "cuttingItems settings dia bs =
     map (\<lambda>(key, val). cuttingItem settings dia val) (foldl addPattern [] bs)"

definition addStockLen :: "(int \<times> nat) list \<Rightarrow> Bin \<Rightarrow> (int \<times> nat) list" where
  "addStockLen stockLenGroups b =
     (if isInventory b then stockLenGroups
      else AList.update (stockLength b)
             ((case map_of stockLenGroups (stockLength b) of None \<Rightarrow> 0 | Some q \<Rightarrow> q) + 1)
             stockLenGroups)"

definition procurementItems :: "int \<Rightarrow> Bin list \<Rightarrow> ProcurementItem list" where
  "procurementItems dia bs =
     map (\<lambda>(l, qty). \<lparr>proc_dia = dia, proc_stockLength = l, proc_quantity = qty,
                       totalLength = int qty * l\<rparr>)
         (foldl addStockLen [] bs)"

record DiaLoop =
  plan_so_far :: "CuttingPlanItem list"
  procurement_so_far :: "ProcurementItem list"
  globalTotalInputLength :: int
  globalTotalPartsLength :: int
  globalTotalWeight :: rat
  randomCount :: nat

text \<open>
  The body of \<open>uniqueDias.forEach\<close>: first the call of \<open>optimizeDiaGroup\<close> on the
  stock lengths, requests and inventory of the diameter, then the totals, the patterns
  and the procurement of its bins.
\<close>

definition diaGroup ::
  "(nat \<Rightarrow> rat) \<Rightarrow> nat \<Rightarrow> CutReq list \<Rightarrow> StockCatalogItem list \<Rightarrow> ProjectSettings
     \<Rightarrow> OffcutInventoryItem list \<Rightarrow> int \<Rightarrow> Bin list \<times> nat" where
  "diaGroup rnd c reqs catalog settings inventory dia =
     (let stockOptions = getStockOptions dia catalog;
          requests = filter (\<lambda>r. req_dia r = dia) reqs;
          relevantInventory = filter (\<lambda>i. inv_dia i = dia) inventory
      in optimizeDiaGroup rnd c requests stockOptions settings relevantInventory)"

definition optimizeDia ::
  "(nat \<Rightarrow> rat) \<Rightarrow> CutReq list \<Rightarrow> StockCatalogItem list \<Rightarrow> ProjectSettings
     \<Rightarrow> OffcutInventoryItem list \<Rightarrow> DiaLoop \<Rightarrow> int \<Rightarrow> DiaLoop" where
  "optimizeDia rnd reqs catalog settings inventory st dia =
     (let r = diaGroup rnd (randomCount st) reqs catalog settings inventory dia;
          bs = fst r;
          wPerM = nearestDouble (of_int (dia * dia) / 162)
      in \<lparr>plan_so_far = plan_so_far st @ cuttingItems settings dia bs,
          procurement_so_far = procurement_so_far st @ procurementItems dia bs,
          globalTotalInputLength = globalTotalInputLength st + sum_list (map stockLength bs),
          globalTotalPartsLength = globalTotalPartsLength st + sum_list (concat (map cuts bs)),
          globalTotalWeight =
            foldl (\<lambda>w b. nearestDouble
                            (w + nearestDouble (wPerM * nearestDouble (of_int (stockLength b) / 1000))))
              (globalTotalWeight st) bs,
          randomCount = snd r\<rparr>)"

record CuttingResult =
  cuttingPlan :: "CuttingPlanItem list"
  procurement :: "ProcurementItem list"
  totalUsedWeight :: rat
  totalWaste :: int
  wastePercent :: "rat option"

text \<open>The whole \<open>uniqueDias.forEach\<close>, from empty lists and zero totals.\<close>

definition diaLoop ::
  "(nat \<Rightarrow> rat) \<Rightarrow> CutReq list \<Rightarrow> StockCatalogItem list \<Rightarrow> ProjectSettings
     \<Rightarrow> OffcutInventoryItem list \<Rightarrow> DiaLoop" where
  "diaLoop rnd reqs catalog settings inventory =
     foldl (optimizeDia rnd reqs catalog settings inventory)
       \<lparr>plan_so_far = [], procurement_so_far = [], globalTotalInputLength = 0,
        globalTotalPartsLength = 0, globalTotalWeight = 0, randomCount = 0\<rparr>
       (uniqueDias reqs)"

definition optimizeCutting ::
  "(nat \<Rightarrow> rat) \<Rightarrow> SplicePlanItem list \<Rightarrow> DirectPiece list \<Rightarrow> BarRun list \<Rightarrow> StockCatalogItem list
     \<Rightarrow> ProjectSettings \<Rightarrow> OffcutInventoryItem list \<Rightarrow> CuttingResult" where
  "optimizeCutting rnd splicePlan directPieces runs catalog settings inventory =
     (let st = diaLoop rnd (allRequests splicePlan directPieces runs) catalog settings inventory;
          totalWaste = globalTotalInputLength st - globalTotalPartsLength st;
          wastePercent =
            (if globalTotalInputLength st > 0
             then map_option (\<lambda>q. nearestDouble (q * 100))
                    (jsDivide (of_int totalWaste) (of_int (globalTotalInputLength st)))
             else Some 0)
      in \<lparr>cuttingPlan = plan_so_far st, procurement = procurement_so_far st,
          totalUsedWeight = globalTotalWeight st, totalWaste = totalWaste,
          wastePercent = wastePercent\<rparr>)"

record Summary =
  totalWeight :: rat
  summaryWaste :: int
  summaryWastePercent :: "rat option"

record OptimizationResult =
  splicePlan :: "SplicePlanItem list"
  resultCuttingPlan :: "CuttingPlanItem list"
  resultProcurement :: "ProcurementItem list"
  summary :: Summary
  warnings :: "Warning list"

text \<open>
  \<open>runSolver\<close>, with the results of \<open>Math.random()\<close> during the call as \<open>rnd\<close>.
  \<open>Math.round\<close> of the integer \<open>totalWaste\<close> is that integer.
\<close>

definition runSolver ::
  "(nat \<Rightarrow> rat) \<Rightarrow> BarRun list \<Rightarrow> DirectPiece list \<Rightarrow> ProjectSettings \<Rightarrow> StockCatalogItem list
     \<Rightarrow> LapRule list \<Rightarrow> OffcutInventoryItem list \<Rightarrow> SolverError + OptimizationResult" where
  "runSolver rnd runs directPieces settings stock laps inventory =
     (if stock = [] then Inl StockCatalogEmpty
      else
        case generateSplicePlan runs laps stock settings of
          Inl e \<Rightarrow> Inl e
        | Inr (plan, ws) \<Rightarrow>
            let r = optimizeCutting rnd plan directPieces runs stock settings inventory
            in Inr \<lparr>splicePlan = plan, resultCuttingPlan = cuttingPlan r,
                    resultProcurement = procurement r,
                    summary = \<lparr>totalWeight = roundCents (totalUsedWeight r),
                                summaryWaste = totalWaste r,
                                summaryWastePercent = map_option roundCents (wastePercent r)\<rparr>,
                    warnings = ws\<rparr>)"

subsection \<open>Predicates on bins\<close>

text \<open>
  A bin is accounted when its \<open>remaining\<close> is its stock length less every cut with
  its kerf; it is within capacity when those cuts with their kerfs fit the stock length;
  it is an oversize bin when it is a new-stock bin whose single cut, with its kerf, is
  longer than the stock length (what the fallback of the packing pass opens).
\<close>

definition binAccounted :: "int \<Rightarrow> Bin \<Rightarrow> bool" where
  "binAccounted kerf b \<longleftrightarrow>
     remaining b = stockLength b - sum_list (map (\<lambda>c. c + kerf) (cuts b))"

definition oversizeBin :: "int \<Rightarrow> Bin \<Rightarrow> bool" where
  "oversizeBin kerf b \<longleftrightarrow>
     \<not> isInventory b \<and> (case cuts b of [c] \<Rightarrow> stockLength b < c + kerf | _ \<Rightarrow> False)"

definition binWithinCapacity :: "int \<Rightarrow> Bin \<Rightarrow> bool" where
  "binWithinCapacity kerf b \<longleftrightarrow> sum_list (map (\<lambda>c. c + kerf) (cuts b)) \<le> stockLength b"

definition binOk :: "int \<Rightarrow> Bin \<Rightarrow> bool" where
  "binOk kerf b \<longleftrightarrow> binAccounted kerf b \<and> (0 \<le> remaining b \<or> oversizeBin kerf b)"

definition invBinOk :: "int \<Rightarrow> Bin \<Rightarrow> bool" where
  "invBinOk kerf b \<longleftrightarrow> binAccounted kerf b \<and> 0 \<le> remaining b"

subsection \<open>Predicates on cutting plan items\<close>

text \<open>
  A pattern is the pattern of a bin when it holds the bin's sorted cuts, its residual
  cut off at 0, its stock length and its source. A cutting plan item is the item of a
  bin when it shows the bin's stock length, sorted cuts and source, and classifies the
  bin's residual (cut off at 0) by the \<open>minLeftoverMm\<close> threshold. The inventory bars
  of a cutting plan are the counts of its inventory items.
\<close>

definition patternOfBin :: "Pattern \<Rightarrow> Bin \<Rightarrow> bool" where
  "patternOfBin val b \<longleftrightarrow>
     pat_cuts val = sortedCuts b \<and> pat_remaining val = max 0 (remaining b)
     \<and> pat_stock val = stockLength b \<and> pat_isInventory val = isInventory b"

definition itemOfBin :: "ProjectSettings \<Rightarrow> CuttingPlanItem \<Rightarrow> Bin \<Rightarrow> bool" where
  "itemOfBin settings item b \<longleftrightarrow>
     cp_stockLength item = stockLength b \<and> cp_cuts item = sortedCuts b
     \<and> sourceType item = (if isInventory b then EXISTING_INVENTORY else NEW_STOCK)
     \<and> (if max 0 (remaining b) \<ge> minLeftoverMm settings
         then offcut item = max 0 (remaining b) \<and> waste item = 0
         else offcut item = 0 \<and> waste item = max 0 (remaining b))"

definition inventoryBars :: "CuttingPlanItem list \<Rightarrow> nat" where
  "inventoryBars items =
     sum_list (map cp_count (filter (\<lambda>item. sourceType item = EXISTING_INVENTORY) items))"

subsection \<open>States of the packing loops\<close>

text \<open>
  The stock lengths of the inventory bins of a bin list; a pool whose inventory options
  all carry a non-empty id; the state of a packing pass over such a pool (as many used
  ids as inventory bins, every used id the id of an inventory option, and the inventory
  bins matched with distinct used options); the state of the sequential consumption
  (every bin an inventory bin, and the bins matched with the used offcut indices); and
  a pattern map whose keys begin with the source of their pattern.
\<close>

definition invLens :: "Bin list \<Rightarrow> int list" where
  "invLens bs = map stockLength (filter isInventory bs)"

definition idsPresent :: "AvailableStockOption list \<Rightarrow> bool" where
  "idsPresent opts \<longleftrightarrow>
     (\<forall>opt\<in>set opts. opt_isInventory opt \<longrightarrow> (case opt_id opt of None \<Rightarrow> False | Some i \<Rightarrow> i \<noteq> []))"

definition poolState :: "AvailableStockOption list \<Rightarrow> Bin list \<times> string set \<Rightarrow> bool" where
  "poolState opts st \<longleftrightarrow>
     finite (snd st) \<and> card (snd st) = length (invLens (fst st))
     \<and> snd st \<subseteq> {i. \<exists>opt\<in>set opts. opt_isInventory opt \<and> opt_id opt = Some i}
     \<and> mset (invLens (fst st)) \<subseteq># mset (map opt_len (filter (skipUsed (snd st)) opts))"

definition offcutState :: "Offcut list \<Rightarrow> Bin list \<times> CutReq list \<times> nat set \<Rightarrow> bool" where
  "offcutState ocs st \<longleftrightarrow>
     (\<forall>b\<in>set (fst st). isInventory b) \<and> snd (snd st) \<subseteq> {0..<length ocs}
     \<and> mset (map stockLength (fst st)) = image_mset (\<lambda>i. oc_len (ocs ! i)) (mset_set (snd (snd st)))"

definition keyedBySource :: "(string \<times> Pattern) list \<Rightarrow> bool" where
  "keyedBySource pm \<longleftrightarrow> (\<forall>(k, v)\<in>set pm. pat_isInventory v = (hd k = CHR ''I''))"

subsection \<open>Example inputs\<close>

text \<open>
  The inputs of the scenarios the theorems below are evaluated on: a run of bar mark
  \<open>B1\<close> with a given diameter, length and zones, lap rules of 1000 mm for diameter 20
  and 100 mm for diameter 10, and a catalog with 12000 mm stock for diameter 20 and
  500 mm stock for diameter 10.
\<close>

definition exampleSettings :: ProjectSettings where
  "exampleSettings = \<lparr>roundingStepMm = 1, kerfMm = 5, minLeftoverMm = 0, optimizationLevel = FAST, inventoryStrategy = SEQUENTIAL\<rparr>"

definition exampleRun :: "int \<Rightarrow> int \<Rightarrow> SpliceZone list \<Rightarrow> BarRun" where
  "exampleRun dia l zones = \<lparr>run_id = ''R1'', run_barMark = ''B1'', memberType = BEAM, run_dia = dia, qtyParallel = 1,
      totalLengthMm = l, run_lapCase = BEAM_TOP, allowedZones = zones\<rparr>"

definition exampleRules :: "LapRule list" where
  "exampleRules = [\<lparr>rule_dia = 20, rule_lapCase = BEAM_TOP, rule_lengthMm = 1000\<rparr>,
                   \<lparr>rule_dia = 10, rule_lapCase = BEAM_TOP, rule_lengthMm = 100\<rparr>]"

definition exampleCatalog :: "StockCatalogItem list" where
  "exampleCatalog = [\<lparr>stock_dia = 20, stockLengths = [12000]\<rparr>, \<lparr>stock_dia = 10, stockLengths = [500]\<rparr>]"

definition exampleReq :: "int \<Rightarrow> CutReq" where
  "exampleReq l = \<lparr>req_dia = 16, req_len = l, req_source = ''B1'', req_id = ''D0-0''\<rparr>"

definition exampleInventory :: "int \<Rightarrow> nat \<Rightarrow> OffcutInventoryItem list" where
  "exampleInventory l n = [\<lparr>inv_id = ''INV-1'', inv_dia = 16, inv_lengthMm = l, quantity = n\<rparr>]"

definition exampleRequests :: "CutReq list" where
  "exampleRequests = map exampleReq [6000, 4000, 2000, 5000, 4000, 3000]"

definition exampleDirect :: "int \<Rightarrow> nat \<Rightarrow> DirectPiece list" where
  "exampleDirect l n = [\<lparr>dp_id = ''D1'', dp_barMark = ''F1'', dp_dia = 16, dp_lengthMm = l, dp_qty = n\<rparr>]"

section \<open>Properties of the splice planner\<close>

subsection \<open>The cut of a CONTINUE step\<close>

lemma proposeCut_le: "fst (proposeCut zones lap effectiveStock cur) \<le> of_int effectiveStock"
  by (auto simp: proposeCut_def Let_def split: option.splits)

lemma floor_step_le:
  assumes "0 < step" shows "of_int (\<lfloor>x / of_int step\<rfloor> * step) \<le> (x::rat)"
proof -
  have "0 < (of_int step :: rat)" using assms by simp
  then have "of_int \<lfloor>x / of_int step\<rfloor> * of_int step \<le> x"
    using pos_le_divide_eq[of "of_int step" "of_int \<lfloor>x / of_int step\<rfloor>" x] by simp
  then show ?thesis by simp
qed

lemma roundCut_ge: "roundCut step x = Some cutLen \<Longrightarrow> 1000 \<le> cutLen"
  by (auto simp: roundCut_def Let_def split: if_splits)

lemma roundCut_le:
  assumes "roundCut step x = Some cutLen" "0 < step" "x \<le> of_int L" "1000 \<le> L"
  shows "cutLen \<le> L"
proof -
  have "of_int (\<lfloor>x / of_int step\<rfloor> * step) \<le> (of_int L :: rat)"
    using floor_step_le[OF assms(2), of x] assms(3) by linarith
  then have "\<lfloor>x / of_int step\<rfloor> * step \<le> L" by (simp only: of_int_le_iff)
  then show ?thesis using assms(1,4) by (auto simp: roundCut_def Let_def split: if_splits)
qed

lemma actualCutLen_bounds:
  assumes "actualCutLen zones lap L step cur = Some cutLen"
  shows "1000 \<le> cutLen" and "0 < step \<Longrightarrow> 1000 \<le> L \<Longrightarrow> cutLen \<le> L"
  using assms roundCut_ge[of step _ cutLen] roundCut_le[of step _ cutLen L] proposeCut_le[of zones lap L cur]
  by (simp_all add: actualCutLen_def)

text \<open>A CONTINUE step that is followed by a plan: its cut, and the state it goes on with.\<close>

lemma spliceLoop_continue:
  assumes "spliceLoop mark zones lap L step cur rem acc ws = Inr (ps, ws')"
    and "0 < rem" "\<not> rem \<le> L"
  shows "\<exists>cutLen. actualCutLen zones lap L step cur = Some cutLen \<and> \<not> cutLen - lap \<le> 0
           \<and> spliceLoop mark zones lap L step (cur + (cutLen - lap)) (rem - (cutLen - lap))
                (acc @ [\<lparr>lengthMm = cutLen, startMm = cur, endMm = cur + cutLen\<rparr>])
                (if violation zones lap L cur
                 then ws @ [StructuralWarning mark
                        (mathRound (of_int cur + of_int cutLen - of_int lap / 2)) L]
                 else ws)
              = Inr (ps, ws')"
proof (cases "actualCutLen zones lap L step cur")
  case None
  with assms show ?thesis by (simp add: spliceLoop.simps[of mark zones lap L step cur rem])
next
  case (Some cutLen)
  show ?thesis
  proof (cases "cutLen - lap \<le> 0")
    case True
    with assms Some show ?thesis
      by (simp add: spliceLoop.simps[of mark zones lap L step cur rem] Let_def)
  next
    case False
    with assms Some show ?thesis
      by (simp add: spliceLoop.simps[of mark zones lap L step cur rem] Let_def split del: if_split)
  qed
qed

lemma spliceLoop_conservation:
  assumes "spliceLoop mark zones lap L step cur rem acc ws = Inr (ps, ws')"
    and "0 < rem" "0 < step" "1000 \<le> L" "0 \<le> lap"
  shows "sum_list (map lengthMm ps) - (int (length ps) - 1) * lap
           = sum_list (map lengthMm acc) - int (length acc) * lap + rem"
  using assms
proof (induction mark zones lap L step cur rem acc ws rule: spliceLoop.induct)
  case (1 mark zones lap L step cur rem acc ws)
  show ?case
  proof (cases "rem \<le> L")
    case True
    with "1.prems" have "ps = acc @ [\<lparr>lengthMm = rem, startMm = cur, endMm = cur + rem\<rparr>]"
      by (simp add: spliceLoop.simps)
    then show ?thesis by (simp add: algebra_simps)
  next
    case False
    from spliceLoop_continue[OF "1.prems"(1,2) False] obtain cutLen where
      cutLen: "actualCutLen zones lap L step cur = Some cutLen" and adv: "\<not> cutLen - lap \<le> 0"
      and rec: "spliceLoop mark zones lap L step (cur + (cutLen - lap)) (rem - (cutLen - lap))
                (acc @ [\<lparr>lengthMm = cutLen, startMm = cur, endMm = cur + cutLen\<rparr>])
                (if violation zones lap L cur
                 then ws @ [StructuralWarning mark
                        (mathRound (of_int cur + of_int cutLen - of_int lap / 2)) L]
                 else ws)
              = Inr (ps, ws')" by blast
    have cutL: "cutLen \<le> L" using actualCutLen_bounds(2)[OF cutLen] "1.prems" by simp
    have rem': "0 < rem - (cutLen - lap)" using False cutL "1.prems" by linarith
    let ?acc = "acc @ [\<lparr>lengthMm = cutLen, startMm = cur, endMm = cur + cutLen\<rparr>]"
    have "sum_list (map lengthMm ps) - (int (length ps) - 1) * lap
           = sum_list (map lengthMm ?acc) - int (length ?acc) * lap + (rem - (cutLen - lap))"
      using "1.IH"[OF "1.prems"(2) False cutLen refl refl refl adv rec rem'] "1.prems" by simp
    then show ?thesis by (simp add: algebra_simps)
  qed
qed

lemma getStockOptions_nonempty: "getStockOptions dia catalog \<noteq> []"
  by (auto simp: getStockOptions_def split: option.splits dest: arg_cong[where f=length])

lemma spliceLoop_pieces:
  assumes "spliceLoop mark zones lap L step cur rem acc ws = Inr (ps, ws')"
  shows "\<exists>new. ps = acc @ new \<and> (\<forall>p\<in>set (butlast new). 1000 \<le> lengthMm p)
           \<and> (\<forall>p\<in>set new. 0 < lengthMm p)
           \<and> (0 < step \<longrightarrow> 1000 \<le> L \<longrightarrow> (\<forall>p\<in>set new. lengthMm p \<le> L))"
  using assms
proof (induction mark zones lap L step cur rem acc ws rule: spliceLoop.induct)
  case (1 mark zones lap L step cur rem acc ws)
  show ?case
  proof (cases "0 < rem")
    case False
    with "1.prems" have "ps = acc" by (simp add: spliceLoop.simps)
    then show ?thesis by simp
  next
    case pos: True
    show ?thesis
    proof (cases "rem \<le> L")
      case True
      with "1.prems" pos have "ps = acc @ [\<lparr>lengthMm = rem, startMm = cur, endMm = cur + rem\<rparr>]"
        by (simp add: spliceLoop.simps)
      then show ?thesis using pos True by simp
    next
      case False
      from spliceLoop_continue[OF "1.prems" pos False] obtain cutLen where
        cutLen: "actualCutLen zones lap L step cur = Some cutLen" and adv: "\<not> cutLen - lap \<le> 0"
        and rec: "spliceLoop mark zones lap L step (cur + (cutLen - lap)) (rem - (cutLen - lap))
                (acc @ [\<lparr>lengthMm = cutLen, startMm = cur, endMm = cur + cutLen\<rparr>])
                (if violation zones lap L cur
                 then ws @ [StructuralWarning mark
                        (mathRound (of_int cur + of_int cutLen - of_int lap / 2)) L]
                 else ws)
              = Inr (ps, ws')" by blast
      let ?p = "\<lparr>lengthMm = cutLen, startMm = cur, endMm = cur + cutLen\<rparr>"
      from "1.IH"[OF pos False cutLen refl refl refl adv rec]
      obtain new where new: "ps = (acc @ [?p]) @ new" "\<forall>p\<in>set (butlast new). 1000 \<le> lengthMm p"
        "\<forall>p\<in>set new. 0 < lengthMm p"
        "0 < step \<longrightarrow> 1000 \<le> L \<longrightarrow> (\<forall>p\<in>set new. lengthMm p \<le> L)" by blast
      have c1: "1000 \<le> cutLen" by (rule actualCutLen_bounds(1)[OF cutLen])
      have b: "\<forall>p\<in>set (butlast (?p # new)). 1000 \<le> lengthMm p"
        using new(2) c1 by (cases new) auto
      have "ps = acc @ (?p # new)" using new(1) by simp
      moreover have "\<forall>p\<in>set (?p # new). 0 < lengthMm p" using new(3) c1 by auto
      moreover have "0 < step \<longrightarrow> 1000 \<le> L \<longrightarrow> (\<forall>p\<in>set (?p # new). lengthMm p \<le> L)"
        using new(4) actualCutLen_bounds(2)[OF cutLen] by auto
      ultimately show ?thesis using b by blast
    qed
  qed
qed

lemma spliceRun_Inr:
  assumes "spliceRun rules catalog settings run ws = Inr (item, ws')"
  shows "getLapLength (run_dia run) (run_lapCase run) rules < hd (getStockOptions (run_dia run) catalog)"
    and "spliceLoop (run_barMark run) (allowedZones run) (getLapLength (run_dia run) (run_lapCase run) rules)
           (hd (getStockOptions (run_dia run) catalog)) (roundingStepMm settings) 0 (totalLengthMm run) [] ws
         = Inr (pieces item, ws')"
  using assms by (auto simp: spliceRun_def Let_def split: if_splits sum.splits prod.splits)

lemma generateSplicePlanFrom_items:
  assumes "generateSplicePlanFrom rules catalog settings runs plan0 ws0 = Inr (plan, ws)"
  shows "\<exists>items. plan = plan0 @ items \<and>
           list_all2 (\<lambda>run item. \<exists>w w'. spliceRun rules catalog settings run w = Inr (item, w')) runs items"
  using assms
proof (induction runs arbitrary: plan0 ws0)
  case Nil
  then show ?case by simp
next
  case (Cons run runs)
  from Cons.prems obtain item w' where
    r: "spliceRun rules catalog settings run ws0 = Inr (item, w')"
    and rest: "generateSplicePlanFrom rules catalog settings runs (plan0 @ [item]) w' = Inr (plan, ws)"
    by (auto split: sum.splits)
  from Cons.IH[OF rest] obtain items where
    "plan = (plan0 @ [item]) @ items"
    "list_all2 (\<lambda>run item. \<exists>w w'. spliceRun rules catalog settings run w = Inr (item, w')) runs items"
    by blast
  with r have "plan = plan0 @ (item # items) \<and>
     list_all2 (\<lambda>run item. \<exists>w w'. spliceRun rules catalog settings run w = Inr (item, w')) (run # runs) (item # items)"
    by auto
  then show ?case by blast
qed

lemma generateSplicePlan_nth:
  assumes "generateSplicePlan runs rules catalog settings = Inr (plan, ws)" "i < length runs"
  shows "length plan = length runs"
    and "\<exists>w w'. spliceRun rules catalog settings (runs ! i) w = Inr (plan ! i, w')"
proof -
  from generateSplicePlanFrom_items[OF assms(1)[unfolded generateSplicePlan_def]]
  have l: "list_all2 (\<lambda>run item. \<exists>w w'. spliceRun rules catalog settings run w = Inr (item, w')) runs plan"
    by simp
  show "length plan = length runs" using l by (simp add: list_all2_lengthD)
  show "\<exists>w w'. spliceRun rules catalog settings (runs ! i) w = Inr (plan ! i, w')"
    using list_all2_nthD[OF l assms(2)] .
qed

subsection \<open>Length conservation\<close>

text \<open>
  Claim C1, as amended. For every run of positive length whose largest stock length is
  at least 1000 mm and whose lap length is not negative, planned with a positive
  rounding step and without a fatal error, the lengths of the emitted pieces minus
  \<open>n - 1\<close> laps add up to \<open>totalLengthMm\<close> exactly: the final piece absorbs what the
  rounding of the earlier pieces left over.
\<close>

theorem splice_length_conservation:
  assumes "generateSplicePlan runs rules catalog settings = Inr (plan, ws)"
    and "i < length runs"
    and "0 < totalLengthMm (runs ! i)"
    and "0 < roundingStepMm settings"
    and "1000 \<le> hd (getStockOptions (run_dia (runs ! i)) catalog)"
    and "0 \<le> getLapLength (run_dia (runs ! i)) (run_lapCase (runs ! i)) rules"
  shows "sum_list (map lengthMm (pieces (plan ! i)))
           - (int (length (pieces (plan ! i))) - 1)
               * getLapLength (run_dia (runs ! i)) (run_lapCase (runs ! i)) rules
         = totalLengthMm (runs ! i)"
proof -
  from generateSplicePlan_nth(2)[OF assms(1,2)] obtain w w' where
    "spliceRun rules catalog settings (runs ! i) w = Inr (plan ! i, w')" by blast
  from spliceLoop_conservation[OF spliceRun_Inr(2)[OF this] assms(3,4,5,6)]
  show ?thesis by simp
qed

theorem splice_length_conservation_witness:
  "generateSplicePlan [exampleRun 20 20000 [\<lparr>zone_startMm = 5000, zone_endMm = 15000\<rparr>]]
     exampleRules exampleCatalog exampleSettings
   = Inr ([\<lparr>runId = ''R1'', barMark = ''B1'', groupId = 0,
            pieces = [\<lparr>lengthMm = 12000, startMm = 0, endMm = 12000\<rparr>,
                      \<lparr>lengthMm = 9000, startMm = 11000, endMm = 20000\<rparr>]\<rparr>], [])
   \<and> (12000 + 9000) - (2 - 1) * getLapLength 20 BEAM_TOP exampleRules = (20000 :: int)"
proof -
  let ?runs = "[exampleRun 20 20000 [\<lparr>zone_startMm = 5000, zone_endMm = 15000\<rparr>]]"
  let ?plan = "[\<lparr>runId = ''R1'', barMark = ''B1'', groupId = 0,
            pieces = [\<lparr>lengthMm = 12000, startMm = 0, endMm = 12000\<rparr>,
                      \<lparr>lengthMm = 9000, startMm = 11000, endMm = 20000\<rparr>]\<rparr>]"
  have h1: "generateSplicePlan ?runs exampleRules exampleCatalog exampleSettings = Inr (?plan, [])"
    by code_simp
  have h2: "0 < length ?runs" by simp
  have h3: "0 < totalLengthMm (?runs ! 0)" by (simp add: exampleRun_def)
  have h4: "0 < roundingStepMm exampleSettings" by (simp add: exampleSettings_def)
  have h5: "1000 \<le> hd (getStockOptions (run_dia (?runs ! 0)) exampleCatalog)" by code_simp
  have h6: "0 \<le> getLapLength (run_dia (?runs ! 0)) (run_lapCase (?runs ! 0)) exampleRules" by code_simp
  from splice_length_conservation[OF h1 h2 h3 h4 h5 h6] h1
  show ?thesis by (simp add: exampleRun_def)
qed

theorem splice_length_conservation_counterexample:
  "generateSplicePlan [exampleRun 10 600 [], exampleRun 20 0 []]
     exampleRules exampleCatalog exampleSettings
     = Inr ([\<lparr>runId = ''R1'', barMark = ''B1'', groupId = 0,
              pieces = [\<lparr>lengthMm = 1000, startMm = 0, endMm = 1000\<rparr>]\<rparr>,
             \<lparr>runId = ''R1'', barMark = ''B1'', groupId = 0, pieces = []\<rparr>],
            [StructuralWarning ''B1'' 950 500])
   \<and> \<not> \<bar>sum_list (map lengthMm [\<lparr>lengthMm = 1000, startMm = 0, endMm = 1000\<rparr>])
          - (int (length [\<lparr>lengthMm = 1000, startMm = 0, endMm = 1000\<rparr>]) - 1)
              * getLapLength 10 BEAM_TOP exampleRules
          - totalLengthMm (exampleRun 10 600 [])\<bar> \<le> roundingStepMm exampleSettings
   \<and> \<not> \<bar>sum_list (map lengthMm ([] :: Piece list))
          - (int (length ([] :: Piece list)) - 1) * getLapLength 20 BEAM_TOP exampleRules
          - totalLengthMm (exampleRun 20 0 [])\<bar> \<le> roundingStepMm exampleSettings"
  by code_simp

subsection \<open>Piece lengths\<close>

text \<open>
  Claim C3, as amended. In a plan produced with a positive rounding step and without a
  fatal error, every piece of a run except its last one is at least 1000 mm long; every
  piece is longer than 0 (the last piece is the remaining length as it is, and may be
  shorter than 1000 mm); and when the largest stock length is at least 1000 mm no
  piece is longer than that stock length.
\<close>

theorem piece_length_bounds:
  assumes "generateSplicePlan runs rules catalog settings = Inr (plan, ws)"
    and "i < length runs"
    and "0 < roundingStepMm settings"
  shows "(\<forall>p\<in>set (butlast (pieces (plan ! i))). 1000 \<le> lengthMm p)
       \<and> (\<forall>p\<in>set (pieces (plan ! i)). 0 < lengthMm p)
       \<and> (1000 \<le> hd (getStockOptions (run_dia (runs ! i)) catalog) \<longrightarrow>
            (\<forall>p\<in>set (pieces (plan ! i)).
               lengthMm p \<le> hd (getStockOptions (run_dia (runs ! i)) catalog)))"
proof -
  from generateSplicePlan_nth(2)[OF assms(1,2)] obtain w w' where
    "spliceRun rules catalog settings (runs ! i) w = Inr (plan ! i, w')" by blast
  from spliceLoop_pieces[OF spliceRun_Inr(2)[OF this]] assms(3)
  show ?thesis by simp
qed

theorem piece_length_bounds_witness:
  "generateSplicePlan [exampleRun 20 20000 [\<lparr>zone_startMm = 5000, zone_endMm = 15000\<rparr>]]
     exampleRules exampleCatalog exampleSettings
   = Inr ([\<lparr>runId = ''R1'', barMark = ''B1'', groupId = 0,
            pieces = [\<lparr>lengthMm = 12000, startMm = 0, endMm = 12000\<rparr>,
                      \<lparr>lengthMm = 9000, startMm = 11000, endMm = 20000\<rparr>]\<rparr>], [])
   \<and> (1000::int) \<le> 12000 \<and> (0::int) < 9000
   \<and> 0 < roundingStepMm exampleSettings
   \<and> 1000 \<le> hd (getStockOptions 20 exampleCatalog)
   \<and> 12000 \<le> hd (getStockOptions 20 exampleCatalog)"
proof -
  let ?runs = "[exampleRun 20 20000 [\<lparr>zone_startMm = 5000, zone_endMm = 15000\<rparr>]]"
  let ?plan = "[\<lparr>runId = ''R1'', barMark = ''B1'', groupId = 0,
            pieces = [\<lparr>lengthMm = 12000, startMm = 0, endMm = 12000\<rparr>,
                      \<lparr>lengthMm = 9000, startMm = 11000, endMm = 20000\<rparr>]\<rparr>]"
  have h1: "generateSplicePlan ?runs exampleRules exampleCatalog exampleSettings = Inr (?plan, [])"
    by code_simp
  have h2: "0 < length ?runs" by simp
  have h4: "0 < roundingStepMm exampleSettings" by (simp add: exampleSettings_def)
  have h5: "1000 \<le> hd (getStockOptions (run_dia (?runs ! 0)) exampleCatalog)" by code_simp
  from piece_length_bounds[OF h1 h2 h4] h1 h4 h5
  show ?thesis by (simp add: exampleRun_def)
qed

theorem piece_length_bounds_counterexample:
  "generateSplicePlan [exampleRun 20 500 [], exampleRun 10 600 []]
     exampleRules exampleCatalog exampleSettings
   = Inr ([\<lparr>runId = ''R1'', barMark = ''B1'', groupId = 0,
            pieces = [\<lparr>lengthMm = 500, startMm = 0, endMm = 500\<rparr>]\<rparr>,
           \<lparr>runId = ''R1'', barMark = ''B1'', groupId = 0,
            pieces = [\<lparr>lengthMm = 1000, startMm = 0, endMm = 1000\<rparr>]\<rparr>],
          [StructuralWarning ''B1'' 950 500])
   \<and> \<not> 1000 \<le> lengthMm \<lparr>lengthMm = 500, startMm = 0, endMm = 500\<rparr>
   \<and> \<not> lengthMm \<lparr>lengthMm = 1000, startMm = 0, endMm = 1000\<rparr>
          \<le> hd (getStockOptions 10 exampleCatalog)"
  by code_simp

subsection \<open>Runs without length\<close>

text \<open>
  Claim C10. A run whose \<open>totalLengthMm\<close> is at most 0, with a lap length below the
  largest stock length of its diameter, gets a splice plan item with no pieces and adds
  no warning, whatever was planned before it and whatever follows; and a solve of that
  run alone on a non-empty catalog returns a result and no error.
\<close>

theorem zero_length_run_succeeds:
  assumes "totalLengthMm run \<le> 0"
    and "getLapLength (run_dia run) (run_lapCase run) rules
           < hd (getStockOptions (run_dia run) catalog)"
  shows "spliceRun rules catalog settings run ws
           = Inr (\<lparr>runId = run_id run, barMark = run_barMark run, groupId = 0, pieces = []\<rparr>, ws)
       \<and> generateSplicePlanFrom rules catalog settings (run # runs) plan ws
           = generateSplicePlanFrom rules catalog settings runs
               (plan @ [\<lparr>runId = run_id run, barMark = run_barMark run, groupId = 0, pieces = []\<rparr>]) ws
       \<and> (catalog \<noteq> [] \<longrightarrow>
            (\<exists>res. runSolver rnd [run] directPieces settings catalog rules inventory = Inr res
                \<and> splicePlan res
                    = [\<lparr>runId = run_id run, barMark = run_barMark run, groupId = 0, pieces = []\<rparr>]
                \<and> warnings res = []))"
proof -
  have a: "\<And>w. spliceRun rules catalog settings run w
           = Inr (\<lparr>runId = run_id run, barMark = run_barMark run, groupId = 0, pieces = []\<rparr>, w)"
    using assms by (simp add: spliceRun_def Let_def spliceLoop.simps)
  have b: "generateSplicePlan [run] rules catalog settings
           = Inr ([\<lparr>runId = run_id run, barMark = run_barMark run, groupId = 0, pieces = []\<rparr>], [])"
    by (simp add: generateSplicePlan_def a)
  show ?thesis by (simp add: a b runSolver_def Let_def)
qed

theorem zero_length_run_succeeds_witness:
  "totalLengthMm (exampleRun 20 0 []) \<le> 0
   \<and> getLapLength 20 BEAM_TOP exampleRules < hd (getStockOptions 20 exampleCatalog)
   \<and> spliceRun exampleRules exampleCatalog exampleSettings (exampleRun 20 0 []) []
       = Inr (\<lparr>runId = ''R1'', barMark = ''B1'', groupId = 0, pieces = []\<rparr>, [])
   \<and> (\<exists>res. runSolver (\<lambda>n. 0) [exampleRun 20 0 []] [] exampleSettings exampleCatalog exampleRules []
               = Inr res
          \<and> splicePlan res = [\<lparr>runId = ''R1'', barMark = ''B1'', groupId = 0, pieces = []\<rparr>]
          \<and> warnings res = [])"
proof -
  have h1: "totalLengthMm (exampleRun 20 0 []) \<le> 0" by (simp add: exampleRun_def)
  have h2: "getLapLength (run_dia (exampleRun 20 0 [])) (run_lapCase (exampleRun 20 0 [])) exampleRules
              < hd (getStockOptions (run_dia (exampleRun 20 0 [])) exampleCatalog)"
    by code_simp
  have h3: "exampleCatalog \<noteq> []" by (simp add: exampleCatalog_def)
  from zero_length_run_succeeds[OF h1 h2, of exampleSettings "[]" "[]" "[]" "\<lambda>n. 0" "[]" "[]"] h1 h2 h3
  show ?thesis by (simp add: exampleRun_def)
qed

section \<open>Properties of the packing pass\<close>

subsection \<open>The searches\<close>

lemma foldl_invariant:
  assumes "P s" and "\<And>s x. P s \<Longrightarrow> P (f s x)"
  shows "P (foldl f s xs)"
  using assms(1) by (induction xs arbitrary: s) (auto intro: assms(2))

lemma bestBinSearch_Some:
  "bestBinSearch bs needed i best = Some (j, r) \<Longrightarrow>
     best = Some (j, r) \<or> (i \<le> j \<and> j < i + length bs \<and> r = remaining (bs ! (j - i)) - needed \<and> 0 \<le> r)"
proof (induction bs arbitrary: i best)
  case Nil
  then show ?case by simp
next
  case (Cons b bs)
  let ?best = "(if remaining b - needed \<ge> 0 \<and> (case best of None \<Rightarrow> True | Some (_, minRem) \<Rightarrow> remaining b - needed < minRem)
            then Some (i, remaining b - needed) else best)"
  from Cons.prems have "bestBinSearch bs needed (Suc i) ?best = Some (j, r)"
    by (simp add: Let_def)
  from Cons.IH[OF this] show ?case
    by (auto split: if_splits simp: nth_Cons')
qed


lemma bestBin_Some: "bestBin bs needed = Some j \<Longrightarrow> j < length bs \<and> needed \<le> remaining (bs ! j)"
  using bestBinSearch_Some[of bs needed 0 None j] by (auto simp: bestBin_def)


lemma bestStockSearch_Some:
  "bestStockSearch opts used needed best = Some (opt, r) \<Longrightarrow>
     best = Some (opt, r) \<or>
     (opt \<in> set opts \<and> \<not> skipUsed used opt \<and> r = opt_len opt - needed \<and> 0 \<le> r
       \<and> (\<forall>o0 r0. best = Some (o0, r0) \<longrightarrow> r < r0))"
proof (induction opts arbitrary: best)
  case Nil
  then show ?case by simp
next
  case (Cons a opts)
  show ?case
  proof (cases "skipUsed used a")
    case True
    with Cons.prems have "bestStockSearch opts used needed best = Some (opt, r)" by simp
    from Cons.IH[OF this] show ?thesis by auto
  next
    case False
    let ?best = "(if opt_len a - needed \<ge> 0 \<and>
                 (case best of None \<Rightarrow> True | Some (_, bestStockRem) \<Rightarrow> opt_len a - needed < bestStockRem)
              then Some (a, opt_len a - needed) else best)"
    from Cons.prems False have "bestStockSearch opts used needed ?best = Some (opt, r)"
      by (simp add: Let_def)
    from Cons.IH[OF this] False show ?thesis
      by (auto split: if_splits)
  qed
qed

lemma bestStockSearch_None:
  "bestStockSearch opts used needed best = None \<longleftrightarrow>
     best = None \<and> (\<forall>opt\<in>set opts. skipUsed used opt \<or> opt_len opt < needed)"
  by (induction opts arbitrary: best) (auto simp: Let_def)

lemma largestNewStock_Some:
  "largestNewStock opts = Some opt \<Longrightarrow> opt \<in> set opts \<and> \<not> opt_isInventory opt"
proof -
  assume a: "largestNewStock opts = Some opt"
  then obtain rest where "sort_key (\<lambda>opt. - opt_len opt) (filter (\<lambda>opt. \<not> opt_isInventory opt) opts) = opt # rest"
    by (auto simp: largestNewStock_def split: list.splits)
  then have "opt \<in> set (sort_key (\<lambda>opt. - opt_len opt) (filter (\<lambda>opt. \<not> opt_isInventory opt) opts))"
    by simp
  then show ?thesis by simp
qed

lemma largestNewStock_None:
  "largestNewStock opts = None \<longleftrightarrow> (\<forall>opt\<in>set opts. opt_isInventory opt)"
proof -
  have "largestNewStock opts = None \<longleftrightarrow>
        sort_key (\<lambda>opt. - opt_len opt) (filter (\<lambda>opt. \<not> opt_isInventory opt) opts) = []"
    by (auto simp: largestNewStock_def split: list.splits)
  also have "\<dots> \<longleftrightarrow> set (sort_key (\<lambda>opt. - opt_len opt) (filter (\<lambda>opt. \<not> opt_isInventory opt) opts)) = {}"
    by (simp only: set_empty)
  also have "\<dots> \<longleftrightarrow> (\<forall>opt\<in>set opts. opt_isInventory opt)" by auto
  finally show ?thesis .
qed

lemma chooseStock_Some:
  assumes "chooseStock opts used needed = Some opt"
  shows "opt \<in> set opts \<and>
         ((\<not> skipUsed used opt \<and> needed \<le> opt_len opt) \<or>
          (\<not> opt_isInventory opt \<and> opt_len opt < needed))"
proof (cases "bestStockSearch opts used needed None")
  case None
  then have l: "largestNewStock opts = Some opt" using assms by (simp add: chooseStock_def)
  from largestNewStock_Some[OF l] have m: "opt \<in> set opts" "\<not> opt_isInventory opt" by auto
  from None m(1) have "skipUsed used opt \<or> opt_len opt < needed"
    by (simp add: bestStockSearch_None)
  with m show ?thesis by (auto simp: skipUsed_def)
next
  case (Some a)
  then obtain r where "bestStockSearch opts used needed None = Some (opt, r)"
    using assms by (cases a) (auto simp: chooseStock_def)
  from bestStockSearch_Some[OF this] show ?thesis by auto
qed

lemma chooseStock_None:
  "chooseStock opts used needed = None \<longleftrightarrow>
     (\<forall>opt\<in>set opts. opt_isInventory opt \<and> (skipUsed used opt \<or> opt_len opt < needed))"
proof (cases "bestStockSearch opts used needed None")
  case None
  then have a: "\<forall>opt\<in>set opts. skipUsed used opt \<or> opt_len opt < needed"
    by (simp add: bestStockSearch_None)
  have "chooseStock opts used needed = largestNewStock opts"
    using None by (simp add: chooseStock_def)
  then show ?thesis using a by (auto simp: largestNewStock_None)
next
  case (Some a)
  obtain opt r where a: "a = (opt, r)" by (cases a)
  from bestStockSearch_Some[OF Some[unfolded a]]
  have "opt \<in> set opts" "\<not> skipUsed used opt" "needed \<le> opt_len opt" by auto
  then show ?thesis using Some a by (auto simp: chooseStock_def)
qed

subsection \<open>Accounting of the bins\<close>

lemma addCut_binOk:
  assumes "\<forall>b\<in>set bs. binOk kerf b" "j < length bs" "l + kerf \<le> remaining (bs ! j)"
  shows "\<forall>b\<in>set (addCut bs j (l + kerf) l). binOk kerf b"
proof -
  let ?b = "(bs ! j)\<lparr>remaining := remaining (bs ! j) - (l + kerf), cuts := cuts (bs ! j) @ [l]\<rparr>"
  have "bs ! j \<in> set bs" using assms(2) by simp
  then have "binAccounted kerf (bs ! j)" using assms(1) by (simp add: binOk_def)
  then have "binOk kerf ?b" using assms(3) by (simp add: binOk_def binAccounted_def)
  moreover have "set (addCut bs j (l + kerf) l) \<subseteq> insert ?b (set bs)"
    unfolding addCut_def by (rule set_update_subset_insert)
  ultimately show ?thesis using assms(1) by auto
qed

lemma packRequest_binOk:
  assumes "\<forall>b\<in>set (fst st). binOk kerf b"
  shows "\<forall>b\<in>set (fst (packRequest opts kerf st req)). binOk kerf b"
proof (cases "bestBin (fst st) (req_len req + kerf)")
  case (Some j)
  from bestBin_Some[OF Some] addCut_binOk[OF assms, of j "req_len req"] Some
  show ?thesis by (simp add: packRequest_def Let_def)
next
  case None
  show ?thesis
  proof (cases "chooseStock opts (snd st) (req_len req + kerf)")
    case n: None
    with None assms show ?thesis by (simp add: packRequest_def Let_def)
  next
    case (Some opt)
    from chooseStock_Some[OF Some]
    have "binOk kerf \<lparr>stockLength = opt_len opt, remaining = opt_len opt - (req_len req + kerf),
                       cuts = [req_len req], isInventory = opt_isInventory opt\<rparr>"
      by (auto simp: binOk_def binAccounted_def oversizeBin_def)
    with None Some assms show ?thesis by (simp add: packRequest_def Let_def)
  qed
qed

lemma packingPass_binOk: "\<forall>b\<in>set (bins (packingPass requests opts kerf)). binOk kerf b"
proof -
  have "\<forall>b\<in>set (fst (foldl (packRequest opts kerf) ([], {}) requests)). binOk kerf b"
    by (rule foldl_invariant[where P = "\<lambda>st. \<forall>b\<in>set (fst st). binOk kerf b"])
       (simp_all add: packRequest_binOk)
  then show ?thesis by (simp add: packingPass_def Let_def)
qed

lemma monteCarloLoop_invariant:
  assumes "P (fst best)" and "\<And>reqs. P (bins (packingPass reqs opts kerf))"
  shows "P (fst (fst (monteCarloLoop rnd requests opts kerf n c best)))"
  using assms(1)
proof (induction n arbitrary: c best)
  case 0
  then show ?case by simp
next
  case (Suc n)
  show ?case
    by (simp add: Let_def split del: if_split) (rule Suc.IH, simp add: Suc.prems assms(2))
qed

lemma performMonteCarlo_invariant:
  assumes "\<And>reqs. P (bins (packingPass reqs opts (kerfMm settings)))"
  shows "P (fst (performMonteCarlo rnd c requests opts settings))"
  unfolding performMonteCarlo_def Let_def fst_conv
  by (rule monteCarloLoop_invariant) (simp_all add: assms)

lemma bestOffcutSearch_Some:
  "bestOffcutSearch ocs used needed i best = Some (j, r) \<Longrightarrow>
     best = Some (j, r) \<or>
     (i \<le> j \<and> j < i + length ocs \<and> j \<notin> used \<and> r = oc_len (ocs ! (j - i)) - needed \<and> 0 \<le> r)"
proof (induction ocs arbitrary: i best)
  case Nil
  then show ?case by simp
next
  case (Cons a ocs)
  show ?case
  proof (cases "i \<in> used")
    case True
    with Cons.prems have "bestOffcutSearch ocs used needed (Suc i) best = Some (j, r)" by simp
    from Cons.IH[OF this] show ?thesis by (auto simp: nth_Cons')
  next
    case False
    let ?best = "(if oc_len a - needed \<ge> 0 \<and> (case best of None \<Rightarrow> True | Some (_, minRem) \<Rightarrow> oc_len a - needed < minRem)
              then Some (i, oc_len a - needed) else best)"
    from Cons.prems False have "bestOffcutSearch ocs used needed (Suc i) ?best = Some (j, r)"
      by (simp add: Let_def)
    from Cons.IH[OF this] False show ?thesis
      by (auto split: if_splits simp: nth_Cons')
  qed
qed

lemma invBinOk_binOk: "invBinOk kerf b \<Longrightarrow> binOk kerf b"
  by (simp add: invBinOk_def binOk_def)

lemma addCut_invBinOk:
  assumes "\<forall>b\<in>set bs. invBinOk kerf b" "j < length bs" "l + kerf \<le> remaining (bs ! j)"
  shows "\<forall>b\<in>set (addCut bs j (l + kerf) l). invBinOk kerf b"
proof -
  let ?b = "(bs ! j)\<lparr>remaining := remaining (bs ! j) - (l + kerf), cuts := cuts (bs ! j) @ [l]\<rparr>"
  have "bs ! j \<in> set bs" using assms(2) by simp
  then have "binAccounted kerf (bs ! j)" using assms(1) by (simp add: invBinOk_def)
  then have "invBinOk kerf ?b" using assms(3) by (simp add: invBinOk_def binAccounted_def)
  moreover have "set (addCut bs j (l + kerf) l) \<subseteq> insert ?b (set bs)"
    unfolding addCut_def by (rule set_update_subset_insert)
  ultimately show ?thesis using assms(1) by auto
qed

lemma consumeRequest_invBinOk:
  assumes "\<forall>b\<in>set (fst st). invBinOk kerf b"
  shows "\<forall>b\<in>set (fst (consumeRequest ocs kerf st req)). invBinOk kerf b"
proof (cases "bestBin (fst st) (req_len req + kerf)")
  case (Some j)
  from bestBin_Some[OF Some] addCut_invBinOk[OF assms, of j "req_len req"] Some
  show ?thesis by (simp add: consumeRequest_def Let_def)
next
  case None
  show ?thesis
  proof (cases "bestOffcutSearch ocs (snd (snd st)) (req_len req + kerf) 0 None")
    case n: None
    with None assms show ?thesis by (simp add: consumeRequest_def Let_def)
  next
    case (Some a)
    obtain j r where a: "a = (j, r)" by (cases a)
    from bestOffcutSearch_Some[OF Some[unfolded a]]
    have "invBinOk kerf \<lparr>stockLength = oc_len (ocs ! j), remaining = r,
                       cuts = [req_len req], isInventory = True\<rparr>"
      by (auto simp: invBinOk_def binAccounted_def)
    with None Some a assms show ?thesis by (simp add: consumeRequest_def Let_def)
  qed
qed

lemma consumeInventorySequential_binOk:
  "\<forall>b\<in>set (fst (consumeInventorySequential requests inventory settings)). binOk (kerfMm settings) b"
proof -
  have "\<forall>b\<in>set (fst (foldl (consumeRequest (sort_key oc_len (flattenInventory inventory)) (kerfMm settings))
                          ([], [], {}) (sortDescending requests))). invBinOk (kerfMm settings) b"
    by (rule foldl_invariant[where P = "\<lambda>st. \<forall>b\<in>set (fst st). invBinOk (kerfMm settings) b"])
       (simp_all add: consumeRequest_invBinOk)
  then show ?thesis by (simp add: consumeInventorySequential_def Let_def invBinOk_binOk)
qed

lemma optimizeDiaGroup_binOk:
  "\<forall>b\<in>set (fst (optimizeDiaGroup rnd c requests stockOptions settings inventory)). binOk (kerfMm settings) b"
proof -
  have mc: "\<And>reqs opts. \<forall>b\<in>set (fst (performMonteCarlo rnd c reqs opts settings)). binOk (kerfMm settings) b"
    by (rule performMonteCarlo_invariant) (rule packingPass_binOk)
  show ?thesis
    using mc consumeInventorySequential_binOk[of requests inventory settings]
    by (auto simp: optimizeDiaGroup_def Let_def)
qed

lemma binOk_capacity:
  "binOk kerf b \<Longrightarrow> binAccounted kerf b \<and> (binWithinCapacity kerf b \<or> oversizeBin kerf b)"
  by (auto simp: binOk_def binAccounted_def binWithinCapacity_def)

text \<open>
  Claim C2, as amended. Every bin of a packing pass, and every bin of the list
  \<open>optimizeDiaGroup\<close> returns under either strategy, is accounted: its \<open>remaining\<close>
  equals \<open>stockLength\<close> minus the sum of (cut + kerf). The sum of (cut + kerf) is at
  most \<open>stockLength\<close> for every bin except an oversize bin, which the fallback opens on
  the longest new stock for a request that fits no available option.
\<close>

theorem bin_capacity:
  "(\<forall>b\<in>set (bins (packingPass requests opts kerf)).
      binAccounted kerf b \<and> (binWithinCapacity kerf b \<or> oversizeBin kerf b))
   \<and> (\<forall>b\<in>set (fst (optimizeDiaGroup rnd c requests stockOptions settings inventory)).
      binAccounted (kerfMm settings) b
      \<and> (binWithinCapacity (kerfMm settings) b \<or> oversizeBin (kerfMm settings) b))"
  using packingPass_binOk[of requests opts kerf]
    optimizeDiaGroup_binOk[of rnd c requests stockOptions settings inventory]
  by (auto dest: binOk_capacity)

theorem bin_capacity_witness:
  "\<lparr>stockLength = 12000, remaining = 2995, cuts = [9000], isInventory = False\<rparr>
     \<in> set (bins (packingPass [exampleReq 9000] (newStockOptions [12000]) 5))
   \<and> binAccounted 5 \<lparr>stockLength = 12000, remaining = 2995, cuts = [9000], isInventory = False\<rparr>
   \<and> binWithinCapacity 5 \<lparr>stockLength = 12000, remaining = 2995, cuts = [9000], isInventory = False\<rparr>"
proof -
  let ?b = "\<lparr>stockLength = 12000, remaining = 2995, cuts = [9000], isInventory = False\<rparr>"
  have h: "?b \<in> set (bins (packingPass [exampleReq 9000] (newStockOptions [12000]) 5))"
    by code_simp
  have n: "\<not> oversizeBin 5 ?b" by code_simp
  from bin_capacity[THEN conjunct1, THEN bspec, OF h] h n show ?thesis by simp
qed

theorem bin_capacity_counterexample:
  "bins (packingPass [exampleReq 12000] (newStockOptions [12000]) 5)
     = [\<lparr>stockLength = 12000, remaining = - 5, cuts = [12000], isInventory = False\<rparr>]
   \<and> \<not> sum_list (map (\<lambda>c. c + 5) (cuts \<lparr>stockLength = 12000, remaining = - 5, cuts = [12000], isInventory = False\<rparr>))
         \<le> stockLength \<lparr>stockLength = 12000, remaining = - 5, cuts = [12000], isInventory = False\<rparr>"
  by code_simp

subsection \<open>Requests without supply\<close>

lemma newStock_chosen:
  assumes "stockOptions \<noteq> []"
  shows "chooseStock (newStockOptions stockOptions @ extra) used needed \<noteq> None"
proof -
  obtain s rest where "stockOptions = s # rest" using assms by (cases stockOptions) auto
  then have "\<lparr>opt_len = s, opt_isInventory = False, opt_id = None\<rparr>
               \<in> set (newStockOptions stockOptions @ extra)"
    by (simp add: newStockOptions_def)
  then show ?thesis unfolding chooseStock_None by force
qed





subsection \<open>Ties between new stock and inventory\<close>

lemma bestStockSearch_append:
  "bestStockSearch (xs @ ys) used needed best
     = bestStockSearch ys used needed (bestStockSearch xs used needed best)"
  by (induction xs arbitrary: best) (simp_all add: Let_def)

lemma bestStockSearch_le:
  "bestStockSearch opts used needed best = Some (opt, r) \<Longrightarrow>
     (\<forall>x\<in>set opts. \<not> skipUsed used x \<longrightarrow> needed \<le> opt_len x \<longrightarrow> r \<le> opt_len x - needed)
     \<and> (\<forall>o0 r0. best = Some (o0, r0) \<longrightarrow> r \<le> r0)"
proof (induction opts arbitrary: best)
  case Nil
  then show ?case by simp
next
  case (Cons a opts)
  show ?case
  proof (cases "skipUsed used a")
    case True
    with Cons.prems have "bestStockSearch opts used needed best = Some (opt, r)" by simp
    from Cons.IH[OF this] True show ?thesis by auto
  next
    case False
    let ?best = "(if opt_len a - needed \<ge> 0 \<and>
                 (case best of None \<Rightarrow> True | Some (_, bestStockRem) \<Rightarrow> opt_len a - needed < bestStockRem)
              then Some (a, opt_len a - needed) else best)"
    from Cons.prems False have "bestStockSearch opts used needed ?best = Some (opt, r)"
      by (simp add: Let_def)
    from Cons.IH[OF this] False show ?thesis
      by (cases best) (auto split: if_splits)
  qed
qed

lemma newStockOptions_set:
  "x \<in> set (newStockOptions stock) \<longleftrightarrow> (\<exists>s\<in>set stock. x = \<lparr>opt_len = s, opt_isInventory = False, opt_id = None\<rparr>)"
  by (auto simp: newStockOptions_def)

text \<open>
  Claim C7, as amended. In the combined pool of the MIXED strategy the new-stock
  options come first and the best-fit comparison is strict, so a bin is opened on an
  inventory unit only when that unit leaves strictly less than every new stock length
  the request fits; on an exact tie the bin is opened on new stock.
\<close>

theorem mixed_tie_prefers_new_stock:
  assumes "chooseStock (newStockOptions stock @ inventoryOptions inventory) used needed = Some opt"
    and "opt_isInventory opt"
  shows "\<forall>s\<in>set stock. needed \<le> s \<longrightarrow> opt_len opt - needed < s - needed"
proof
  fix s assume s: "s \<in> set stock"
  let ?news = "newStockOptions stock" and ?invs = "inventoryOptions inventory"
  let ?x = "\<lparr>opt_len = s, opt_isInventory = False, opt_id = None\<rparr>"
  have x: "?x \<in> set ?news" using s by (auto simp: newStockOptions_set)
  have nsk: "\<not> skipUsed used ?x" by (simp add: skipUsed_def)
  show "needed \<le> s \<longrightarrow> opt_len opt - needed < s - needed"
  proof
    assume fit: "needed \<le> s"
    obtain r where fin: "bestStockSearch (?news @ ?invs) used needed None = Some (opt, r)"
    proof (cases "bestStockSearch (?news @ ?invs) used needed None")
      case None
      with assms(1) have "largestNewStock (?news @ ?invs) = Some opt" by (simp add: chooseStock_def)
      from largestNewStock_Some[OF this] assms(2) show ?thesis by simp
    next
      case (Some a)
      with assms(1) that show ?thesis by (cases a) (auto simp: chooseStock_def)
    qed
    define b1 where "b1 = bestStockSearch ?news used needed None"
    have fin2: "bestStockSearch ?invs used needed b1 = Some (opt, r)"
      using fin by (simp add: bestStockSearch_append b1_def)
    have "b1 \<noteq> None" using x nsk fit unfolding b1_def bestStockSearch_None by force
    then obtain o0 r0 where b1: "b1 = Some (o0, r0)" by (cases b1) auto
    from bestStockSearch_Some[OF b1[unfolded b1_def]]
    have o0: "o0 \<in> set ?news" by auto
    then have o0n: "\<not> opt_isInventory o0" by (auto simp: newStockOptions_set)
    from bestStockSearch_le[OF b1[unfolded b1_def]] x nsk fit
    have r0: "r0 \<le> s - needed" by auto
    from bestStockSearch_Some[OF fin2] b1 o0n assms(2)
    have "r = opt_len opt - needed" "r < r0" by auto
    with r0 show "opt_len opt - needed < s - needed" by simp
  qed
qed

theorem mixed_tie_prefers_new_stock_witness:
  "chooseStock (newStockOptions [12000] @ inventoryOptions (exampleInventory 6100 1)) {} 6005
     = Some \<lparr>opt_len = 6100, opt_isInventory = True, opt_id = Some ''INV-1-0''\<rparr>
   \<and> opt_isInventory \<lparr>opt_len = 6100, opt_isInventory = True, opt_id = Some ''INV-1-0''\<rparr>
   \<and> (6005::int) \<le> 12000
   \<and> (6100::int) - 6005 < 12000 - 6005"
proof -
  let ?o = "\<lparr>opt_len = 6100, opt_isInventory = True, opt_id = Some ''INV-1-0''\<rparr>"
  have h1: "chooseStock (newStockOptions [12000] @ inventoryOptions (exampleInventory 6100 1)) {} 6005 = Some ?o"
    by code_simp
  have h2: "opt_isInventory ?o" by simp
  from mixed_tie_prefers_new_stock[OF h1 h2] h1 show ?thesis by simp
qed


theorem mixed_tie_counterexample:
  "optimizeDiaGroup (\<lambda>n. 0) 0 [exampleReq 11900] [12000]
     (exampleSettings\<lparr>inventoryStrategy := MIXED\<rparr>) (exampleInventory 12000 1)
     = ([\<lparr>stockLength = 12000, remaining = 95, cuts = [11900], isInventory = False\<rparr>], 0)
   \<and> usedInventoryIds (packingPass [exampleReq 11900]
        (newStockOptions [12000] @ inventoryOptions (exampleInventory 12000 1)) 5) = {}"
  by code_simp

subsection \<open>The FAST level\<close>

text \<open>
  Claim C8. With the FAST level the driver runs the seed pass and then one pass on a
  shuffled copy of the requests, whose bins it returns when their residual sum is
  smaller. For the six requests below on 12000 mm stock without kerf the seed pass
  needs three bars; when every \<open>Math.random()\<close> returns 0.9 the shuffle leaves the
  requests in their given order, that pass needs two bars and FAST returns it; when
  every result is 0 FAST returns the seed pass.
\<close>

theorem fast_runs_a_shuffled_pass:
  "bins (packingPass (sortDescending exampleRequests) (newStockOptions [12000]) 0)
     = [\<lparr>stockLength = 12000, remaining = 1000, cuts = [6000, 5000], isInventory = False\<rparr>,
        \<lparr>stockLength = 12000, remaining = 1000, cuts = [4000, 4000, 3000], isInventory = False\<rparr>,
        \<lparr>stockLength = 12000, remaining = 10000, cuts = [2000], isInventory = False\<rparr>]
   \<and> fst (performMonteCarlo (\<lambda>n. 9 / 10) 0 exampleRequests (newStockOptions [12000])
            (exampleSettings\<lparr>kerfMm := 0\<rparr>))
     = [\<lparr>stockLength = 12000, remaining = 0, cuts = [6000, 4000, 2000], isInventory = False\<rparr>,
        \<lparr>stockLength = 12000, remaining = 0, cuts = [5000, 4000, 3000], isInventory = False\<rparr>]
   \<and> fst (performMonteCarlo (\<lambda>n. 0) 0 exampleRequests (newStockOptions [12000])
            (exampleSettings\<lparr>kerfMm := 0\<rparr>))
     = bins (packingPass (sortDescending exampleRequests) (newStockOptions [12000]) 0)"
  by code_simp

section \<open>Properties of the aggregation\<close>

subsection \<open>The waste percentage\<close>







subsection \<open>Patterns and their items\<close>

lemma update_present:
  "map_of al k = Some v \<Longrightarrow>
     \<exists>xs ys. al = xs @ (k, v) # ys \<and> AList.update k v' al = xs @ (k, v') # ys"
proof (induction al)
  case Nil
  then show ?case by simp
next
  case (Cons p al)
  show ?case
  proof (cases "fst p = k")
    case True
    with Cons.prems have "p = (k, v)" by (cases p) auto
    then have "p # al = [] @ (k, v) # al \<and> AList.update k v' (p # al) = [] @ (k, v') # al"
      by simp
    then show ?thesis by blast
  next
    case False
    with Cons.prems have "map_of al k = Some v" by (cases p) auto
    from Cons.IH[OF this] obtain xs ys where
      "al = xs @ (k, v) # ys" "AList.update k v' al = xs @ (k, v') # ys" by blast
    with False have "p # al = (p # xs) @ (k, v) # ys \<and>
        AList.update k v' (p # al) = (p # xs) @ (k, v') # ys"
      by (cases p) auto
    then show ?thesis by blast
  qed
qed

lemma update_absent: "map_of al k = None \<Longrightarrow> AList.update k v' al = al @ [(k, v')]"
  by (induction al) (auto split: if_splits)

lemma addPattern_patterns:
  assumes "\<forall>(k, v)\<in>set pm. \<exists>b\<in>B. patternOfBin v b" and "b \<in> B"
  shows "\<forall>(k, v)\<in>set (addPattern pm b). \<exists>b\<in>B. patternOfBin v b"
proof (cases "map_of pm (patternKey b)")
  case None
  have "patternOfBin \<lparr>pat_count = 1, pat_cuts = sortedCuts b, pat_remaining = max 0 (remaining b),
             pat_stock = stockLength b, pat_isInventory = isInventory b\<rparr> b"
    by (simp add: patternOfBin_def)
  with assms None show ?thesis
    by (auto simp: addPattern_def update_absent)
next
  case (Some val)
  from update_present[OF Some, of "val\<lparr>pat_count := pat_count val + 1\<rparr>"]
  obtain xs ys where al: "pm = xs @ (patternKey b, val) # ys"
    "AList.update (patternKey b) (val\<lparr>pat_count := pat_count val + 1\<rparr>) pm
       = xs @ (patternKey b, val\<lparr>pat_count := pat_count val + 1\<rparr>) # ys" by blast
  have "\<exists>b\<in>B. patternOfBin val b" using assms(1) al(1) by auto
  then have "\<exists>b\<in>B. patternOfBin (val\<lparr>pat_count := pat_count val + 1\<rparr>) b"
    by (simp add: patternOfBin_def)
  moreover have "\<forall>(k, v)\<in>set xs \<union> set ys. \<exists>b\<in>B. patternOfBin v b"
    using assms(1) al(1) by auto
  ultimately show ?thesis using Some al(2) by (auto simp: addPattern_def)
qed

lemma foldl_addPattern_patterns:
  assumes "\<forall>(k, v)\<in>set pm. \<exists>b\<in>B. patternOfBin v b" and "set bs \<subseteq> B"
  shows "\<forall>(k, v)\<in>set (foldl addPattern pm bs). \<exists>b\<in>B. patternOfBin v b"
  using assms
proof (induction bs arbitrary: pm)
  case Nil
  then show ?case by simp
next
  case (Cons b bs)
  have "\<forall>(k, v)\<in>set (addPattern pm b). \<exists>b\<in>B. patternOfBin v b"
    using Cons.prems by (intro addPattern_patterns) auto
  from Cons.IH[OF this] Cons.prems(2) show ?case by simp
qed

lemma cuttingItem_itemOfBin:
  "patternOfBin val b \<Longrightarrow> itemOfBin settings (cuttingItem settings dia val) b"
  by (simp add: patternOfBin_def itemOfBin_def cuttingItem_def Let_def)

lemma cuttingItems_itemOfBin:
  assumes "item \<in> set (cuttingItems settings dia bs)"
  shows "\<exists>b\<in>set bs. itemOfBin settings item b"
proof -
  from assms obtain k val where kv: "(k, val) \<in> set (foldl addPattern [] bs)"
    and item: "item = cuttingItem settings dia val"
    by (auto simp: cuttingItems_def)
  have "\<forall>(k, v)\<in>set (foldl addPattern [] bs). \<exists>b\<in>set bs. patternOfBin v b"
    by (rule foldl_addPattern_patterns) simp_all
  with kv obtain b where "b \<in> set bs" "patternOfBin val b" by auto
  with item show ?thesis by (auto intro: cuttingItem_itemOfBin)
qed

lemma itemOfBin_dichotomy:
  "itemOfBin settings item b \<Longrightarrow>
     0 \<le> waste item \<and> 0 \<le> offcut item \<and> (waste item = 0 \<or> offcut item = 0)"
  by (auto simp: itemOfBin_def split: if_splits)

lemma foldl_optimizeDia_plan:
  assumes "\<forall>item\<in>set (plan_so_far st). R item"
    and "\<And>c dia item. item \<in> set (cuttingItems settings dia (fst (diaGroup rnd c reqs catalog settings inventory dia))) \<Longrightarrow> R item"
  shows "\<forall>item\<in>set (plan_so_far (foldl (optimizeDia rnd reqs catalog settings inventory) st dias)). R item"
  using assms(1)
proof (induction dias arbitrary: st)
  case Nil
  then show ?case by simp
next
  case (Cons d dias)
  have "\<forall>item\<in>set (plan_so_far (optimizeDia rnd reqs catalog settings inventory st d)). R item"
    using Cons.prems assms(2) by (auto simp: optimizeDia_def Let_def)
  from Cons.IH[OF this] show ?case by simp
qed

text \<open>
  Claim C6. Every item of the cutting plan has a waste and an offcut that are not
  negative and of which at most one is positive; the item is the item of a bin that
  \<open>optimizeDiaGroup\<close> returned for one of the diameters: it shows that bin's stock
  length, sorted cuts and source, and when the bin's residual, cut off at 0, is at least
  \<open>minLeftoverMm\<close> the offcut is that residual and the waste 0, otherwise the offcut
  is 0 and the waste is that residual.
\<close>

theorem offcut_waste_dichotomy:
  assumes "item \<in> set (cuttingPlan (optimizeCutting rnd plan directPieces runs catalog settings inventory))"
  shows "0 \<le> waste item \<and> 0 \<le> offcut item \<and> (waste item = 0 \<or> offcut item = 0)
       \<and> (\<exists>c dia. \<exists>b\<in>set (fst (diaGroup rnd c (allRequests plan directPieces runs) catalog settings
                                   inventory dia)).
             itemOfBin settings item b)"
proof -
  let ?reqs = "allRequests plan directPieces runs"
  let ?R = "\<lambda>item. \<exists>c dia. \<exists>b\<in>set (fst (diaGroup rnd c ?reqs catalog settings inventory dia)).
             itemOfBin settings item b"
  have "\<forall>item\<in>set (plan_so_far (diaLoop rnd ?reqs catalog settings inventory)). ?R item"
    unfolding diaLoop_def
  proof (rule foldl_optimizeDia_plan)
    fix c dia item
    assume "item \<in> set (cuttingItems settings dia (fst (diaGroup rnd c ?reqs catalog settings inventory dia)))"
    from cuttingItems_itemOfBin[OF this] show "?R item" by blast
  qed simp
  with assms have r: "?R item" by (simp add: optimizeCutting_def Let_def)
  then obtain c dia b where "itemOfBin settings item b" by blast
  from itemOfBin_dichotomy[OF this] r show ?thesis by blast
qed

theorem offcut_waste_dichotomy_witness:
  "\<lparr>cp_dia = 16, cp_stockLength = 12000, cp_count = 1, cp_cuts = [9000], waste = 0,
     offcut = 2995, sourceType = NEW_STOCK\<rparr>
     \<in> set (cuttingPlan (optimizeCutting (\<lambda>n. 0) [] (exampleDirect 9000 1) [] exampleCatalog
                exampleSettings []))
   \<and> (0::int) \<le> 2995
   \<and> waste \<lparr>cp_dia = 16, cp_stockLength = 12000, cp_count = 1, cp_cuts = [9000], waste = 0,
              offcut = 2995, sourceType = NEW_STOCK\<rparr> = 0"
proof -
  let ?item = "\<lparr>cp_dia = 16, cp_stockLength = 12000, cp_count = 1, cp_cuts = [9000], waste = 0,
     offcut = 2995, sourceType = NEW_STOCK\<rparr>"
  have h: "?item \<in> set (cuttingPlan (optimizeCutting (\<lambda>n. 0) [] (exampleDirect 9000 1) []
                exampleCatalog exampleSettings []))"
    by code_simp
  from offcut_waste_dichotomy[OF h] h show ?thesis by simp
qed

section \<open>Properties of the inventory consumption\<close>

subsection \<open>The combined pool\<close>

lemma invLens_append [simp]: "invLens (xs @ ys) = invLens xs @ invLens ys"
  by (simp add: invLens_def)

lemma invLens_update:
  assumes "j < length bs" "isInventory b' = isInventory (bs ! j)" "stockLength b' = stockLength (bs ! j)"
  shows "invLens (bs[j := b']) = invLens bs"
  using assms
proof (induction bs arbitrary: j)
  case Nil
  then show ?case by simp
next
  case (Cons a bs)
  then show ?case by (cases j) (auto simp: invLens_def)
qed

lemma invLens_addCut: "j < length bs \<Longrightarrow> invLens (addCut bs j n l) = invLens bs"
  unfolding addCut_def by (rule invLens_update) simp_all

lemma filter_mset_imp:
  assumes "\<And>x. P x \<Longrightarrow> Q x"
  shows "filter_mset P M \<subseteq># filter_mset Q M"
  by (rule mset_subset_eqI) (use assms in auto)

lemma filter_mset_add_one:
  assumes "\<And>x. P x \<Longrightarrow> Q x" "\<not> P a" "Q a" "a \<in># M"
  shows "add_mset a (filter_mset P M) \<subseteq># filter_mset Q M"
proof (rule mset_subset_eqI)
  fix x
  have "0 < count M a" using assms(4) by simp
  then show "count (add_mset a (filter_mset P M)) x \<le> count (filter_mset Q M) x"
    using assms(1)[of x] assms(2,3) by auto
qed

lemma optLens_used_mono:
  assumes "\<And>x. P x \<Longrightarrow> Q x"
  shows "mset (map f (filter P xs)) \<subseteq># mset (map f (filter Q xs))"
proof -
  have "image_mset f (filter_mset P (mset xs)) \<subseteq># image_mset f (filter_mset Q (mset xs))"
    by (rule image_mset_subseteq_mono) (rule filter_mset_imp, rule assms)
  then show ?thesis by simp
qed

lemma optLens_used_add:
  assumes "\<And>x. P x \<Longrightarrow> Q x" "\<not> P a" "Q a" "a \<in> set xs"
  shows "add_mset (f a) (mset (map f (filter P xs))) \<subseteq># mset (map f (filter Q xs))"
proof -
  have "image_mset f (add_mset a (filter_mset P (mset xs))) \<subseteq># image_mset f (filter_mset Q (mset xs))"
    by (rule image_mset_subseteq_mono) (rule filter_mset_add_one, use assms in auto)
  then show ?thesis by simp
qed

lemma packRequest_poolState:
  assumes ids: "idsPresent opts" and st: "poolState opts st"
  shows "poolState opts (packRequest opts kerf st req)"
proof (cases "bestBin (fst st) (req_len req + kerf)")
  case (Some j)
  from bestBin_Some[OF Some] have "j < length (fst st)" by simp
  then show ?thesis using st Some
    by (simp add: packRequest_def Let_def poolState_def invLens_addCut)
next
  case None
  show ?thesis
  proof (cases "chooseStock opts (snd st) (req_len req + kerf)")
    case n: None
    with None st show ?thesis by (cases st) (simp add: packRequest_def Let_def)
  next
    case (Some opt)
    let ?bin = "\<lparr>stockLength = opt_len opt, remaining = opt_len opt - (req_len req + kerf),
                  cuts = [req_len req], isInventory = opt_isInventory opt\<rparr>"
    have res: "packRequest opts kerf st req = (fst st @ [?bin], markUsed opt (snd st))"
      using None Some by (simp add: packRequest_def Let_def)
    from chooseStock_Some[OF Some] have mem: "opt \<in> set opts"
      and alt: "\<not> opt_isInventory opt \<or> \<not> skipUsed (snd st) opt" by auto
    show ?thesis
    proof (cases "opt_isInventory opt")
      case False
      then have "markUsed opt (snd st) = snd st" by (simp add: markUsed_def split: option.splits)
      with False st res show ?thesis by (simp add: poolState_def invLens_def)
    next
      case True
      with ids mem obtain i where i: "opt_id opt = Some i" "i \<noteq> []"
        by (auto simp: idsPresent_def split: option.splits)
      with True alt have fresh: "i \<notin> snd st" by (simp add: skipUsed_def)
      have mu: "markUsed opt (snd st) = insert i (snd st)"
        using True i by (simp add: markUsed_def)
      have now: "skipUsed (insert i (snd st)) opt" using True i by (simp add: skipUsed_def)
      have mono: "\<And>x. skipUsed (snd st) x \<Longrightarrow> skipUsed (insert i (snd st)) x"
        by (auto simp: skipUsed_def split: option.splits)
      have "add_mset (opt_len opt) (mset (map opt_len (filter (skipUsed (snd st)) opts)))
              \<subseteq># mset (map opt_len (filter (skipUsed (insert i (snd st))) opts))"
      proof (rule optLens_used_add[where P = "skipUsed (snd st)"
                     and Q = "skipUsed (insert i (snd st))" and a = opt and xs = opts])
        show "\<not> skipUsed (snd st) opt" using alt True by simp
      qed (simp_all add: mono now mem)
      moreover have "add_mset (opt_len opt) (mset (invLens (fst st)))
              \<subseteq># add_mset (opt_len opt) (mset (map opt_len (filter (skipUsed (snd st)) opts)))"
        using st by (simp add: poolState_def)
      ultimately have sub: "add_mset (opt_len opt) (mset (invLens (fst st)))
              \<subseteq># mset (map opt_len (filter (skipUsed (insert i (snd st))) opts))"
        by (rule subset_mset.order_trans[rotated])
      have "invLens (fst st @ [?bin]) = invLens (fst st) @ [opt_len opt]"
        using True by (simp add: invLens_def)
      with st fresh mu sub True i mem res show ?thesis
        by (auto simp: poolState_def)
    qed
  qed
qed

lemma packingPass_poolState:
  assumes "idsPresent opts"
  shows "poolState opts (bins (packingPass requests opts kerf),
                         usedInventoryIds (packingPass requests opts kerf))"
proof -
  have "poolState opts (foldl (packRequest opts kerf) ([], {}) requests)"
  proof (rule foldl_invariant[where P = "poolState opts"])
    show "poolState opts ([], {})" by (simp add: poolState_def invLens_def)
  qed (rule packRequest_poolState[OF assms])
  then show ?thesis by (simp add: packingPass_def Let_def)
qed

subsection \<open>Inventory first\<close>

lemma addCut_stockLength: "map stockLength (addCut bs j n l) = map stockLength bs"
  by (cases "j < length bs") (simp_all add: addCut_def map_update list_update_same_conv list_update_beyond)

lemma addCut_isInventory: "map isInventory (addCut bs j n l) = map isInventory bs"
  by (cases "j < length bs") (simp_all add: addCut_def map_update list_update_same_conv list_update_beyond)

lemma all_isInventory_map: "(\<forall>b\<in>set bs. isInventory b) \<longleftrightarrow> (\<forall>x\<in>set (map isInventory bs). x)"
  by auto

lemma consumeRequest_offcutState:
  assumes "offcutState ocs st"
  shows "offcutState ocs (consumeRequest ocs kerf st req)"
proof (cases "bestBin (fst st) (req_len req + kerf)")
  case (Some j)
  have "(\<forall>b\<in>set (addCut (fst st) j (req_len req + kerf) (req_len req)). isInventory b)"
    using assms unfolding all_isInventory_map addCut_isInventory by (simp add: offcutState_def)
  moreover have "mset (map stockLength (addCut (fst st) j (req_len req + kerf) (req_len req)))
      = mset (map stockLength (fst st))" by (simp only: addCut_stockLength)
  ultimately show ?thesis using assms Some
    by (simp add: consumeRequest_def Let_def offcutState_def)
next
  case None
  show ?thesis
  proof (cases "bestOffcutSearch ocs (snd (snd st)) (req_len req + kerf) 0 None")
    case n: None
    with None assms show ?thesis by (simp add: consumeRequest_def Let_def offcutState_def)
  next
    case (Some a)
    obtain j r where a: "a = (j, r)" by (cases a)
    from bestOffcutSearch_Some[OF Some[unfolded a]]
    have j: "j < length ocs" "j \<notin> snd (snd st)" by auto
    have fin: "finite (snd (snd st))"
      using assms by (auto simp: offcutState_def intro: finite_subset)
    show ?thesis using None Some a j fin assms
      by (simp add: consumeRequest_def Let_def offcutState_def)
  qed
qed

lemma offcut_lengths_all: "image_mset (\<lambda>i. oc_len (ocs ! i)) (mset_set {0..<length ocs}) = mset (map oc_len ocs)"
proof -
  have "image_mset (\<lambda>i. oc_len (ocs ! i)) (mset_set {0..<length ocs})
          = mset (map (\<lambda>i. oc_len (ocs ! i)) [0..<length ocs])"
    by simp
  also have "map (\<lambda>i. oc_len (ocs ! i)) [0..<length ocs] = map oc_len (map ((!) ocs) [0..<length ocs])"
    by simp
  also have "\<dots> = map oc_len ocs" by (simp only: map_nth)
  finally show ?thesis .
qed

lemma consumeInventorySequential_inventory:
  "(\<forall>b\<in>set (fst (consumeInventorySequential requests inventory settings)). isInventory b)
   \<and> mset (map stockLength (fst (consumeInventorySequential requests inventory settings)))
        \<subseteq># mset (map oc_len (flattenInventory inventory))"
proof -
  let ?ocs = "sort_key oc_len (flattenInventory inventory)"
  let ?st = "foldl (consumeRequest ?ocs (kerfMm settings)) ([], [], {}) (sortDescending requests)"
  have st: "offcutState ?ocs ?st"
  proof (rule foldl_invariant[where P = "offcutState ?ocs"])
    show "offcutState ?ocs ([], [], {})" by (simp add: offcutState_def)
  qed (rule consumeRequest_offcutState)
  then have "mset_set (snd (snd ?st)) \<subseteq># mset_set {0..<length ?ocs}"
    by (intro subset_imp_msubset_mset_set) (simp_all add: offcutState_def)
  then have "image_mset (\<lambda>i. oc_len (?ocs ! i)) (mset_set (snd (snd ?st)))
              \<subseteq># image_mset (\<lambda>i. oc_len (?ocs ! i)) (mset_set {0..<length ?ocs})"
    by (rule image_mset_subseteq_mono)
  then have "mset (map stockLength (fst ?st)) \<subseteq># mset (map oc_len ?ocs)"
    using st by (simp only: offcutState_def offcut_lengths_all)
  moreover have "mset (map oc_len ?ocs) = mset (map oc_len (flattenInventory inventory))"
    by simp
  ultimately show ?thesis using st
    by (simp add: consumeInventorySequential_def Let_def offcutState_def)
qed

subsection \<open>One diameter\<close>

lemma idsPresent_newStock: "idsPresent (newStockOptions stock)"
  by (auto simp: idsPresent_def newStockOptions_def)

lemma idsPresent_mixed: "idsPresent (newStockOptions stock @ inventoryOptions inventory)"
  by (auto simp: idsPresent_def newStockOptions_def inventoryOptions_def)

lemma inventoryOptions_lengths:
  "map opt_len (inventoryOptions inventory) = map oc_len (flattenInventory inventory)"
  by (simp add: inventoryOptions_def flattenInventory_def map_concat comp_def)

lemma inventoryOptions_ids:
  "{i. \<exists>opt\<in>set (newStockOptions stock @ inventoryOptions inventory).
         opt_isInventory opt \<and> opt_id opt = Some i}
     \<subseteq> oc_id ` set (flattenInventory inventory)"
  by (auto simp: newStockOptions_def inventoryOptions_def flattenInventory_def image_iff) force

lemma length_flattenInventory:
  "length (flattenInventory inventory) = sum_list (map quantity inventory)"
  by (simp add: flattenInventory_def length_concat comp_def)

lemma packingPass_newStock_inventory:
  "invLens (bins (packingPass requests (newStockOptions stock) kerf)) = []"
proof -
  have "filter (skipUsed (usedInventoryIds (packingPass requests (newStockOptions stock) kerf)))
          (newStockOptions stock) = []"
    by (auto simp: filter_empty_conv skipUsed_def newStockOptions_def)
  with packingPass_poolState[OF idsPresent_newStock, of stock requests kerf]
  show ?thesis by (simp add: poolState_def)
qed

lemma packingPass_mixed_inventory:
  "mset (invLens (bins (packingPass requests (newStockOptions stock @ inventoryOptions inventory) kerf)))
     \<subseteq># mset (map oc_len (flattenInventory inventory))"
proof -
  let ?opts = "newStockOptions stock @ inventoryOptions inventory"
  let ?r = "packingPass requests ?opts kerf"
  have "mset (invLens (bins ?r)) \<subseteq># mset (map opt_len (filter (skipUsed (usedInventoryIds ?r)) ?opts))"
    using packingPass_poolState[OF idsPresent_mixed, of stock inventory requests kerf]
    by (simp add: poolState_def)
  also have "\<dots> \<subseteq># mset (map opt_len (filter opt_isInventory ?opts))"
    by (rule optLens_used_mono) (simp add: skipUsed_def)
  also have "filter opt_isInventory ?opts = inventoryOptions inventory"
    by (auto simp: newStockOptions_def inventoryOptions_def filter_concat comp_def filter_empty_conv)
  finally show ?thesis by (simp only: inventoryOptions_lengths)
qed

lemma optimizeDiaGroup_inventory:
  "mset (invLens (fst (optimizeDiaGroup rnd c requests stockOptions settings inventory)))
     \<subseteq># mset (map oc_len (flattenInventory inventory))"
proof (cases "inventoryStrategy settings = SEQUENTIAL")
  case True
  let ?seq = "consumeInventorySequential requests inventory settings"
  have inv: "invLens (fst ?seq) = map stockLength (fst ?seq)"
    using consumeInventorySequential_inventory[of requests inventory settings]
    by (simp add: invLens_def)
  have mc: "invLens (fst (performMonteCarlo rnd c (snd ?seq) (newStockOptions stockOptions) settings)) = []"
    by (rule performMonteCarlo_invariant) (rule packingPass_newStock_inventory)
  have "invLens (fst (optimizeDiaGroup rnd c requests stockOptions settings inventory)) = invLens (fst ?seq)"
    using True mc by (simp add: optimizeDiaGroup_def Let_def)
  then show ?thesis
    using consumeInventorySequential_inventory[of requests inventory settings] inv by simp
next
  case False
  have "mset (invLens (fst (performMonteCarlo rnd c requests
            (newStockOptions stockOptions @ inventoryOptions inventory) settings)))
          \<subseteq># mset (map oc_len (flattenInventory inventory))"
    by (rule performMonteCarlo_invariant) (rule packingPass_mixed_inventory)
  with False show ?thesis by (simp add: optimizeDiaGroup_def)
qed

lemma optimizeDiaGroup_inventory_count:
  "length (filter isInventory (fst (optimizeDiaGroup rnd c requests stockOptions settings inventory)))
     \<le> sum_list (map quantity inventory)"
proof -
  from size_mset_mono[OF optimizeDiaGroup_inventory[of rnd c requests stockOptions settings inventory]]
  have "length (invLens (fst (optimizeDiaGroup rnd c requests stockOptions settings inventory)))
          \<le> length (map oc_len (flattenInventory inventory))"
    by (simp only: size_mset)
  then show ?thesis by (simp add: invLens_def length_flattenInventory)
qed

subsection \<open>The cutting plan\<close>

lemma inventoryBars_append [simp]: "inventoryBars (xs @ ys) = inventoryBars xs + inventoryBars ys"
  by (simp add: inventoryBars_def)

lemma hd_patternKey: "hd (patternKey b) = (if isInventory b then CHR ''I'' else CHR ''N'')"
  by (simp add: patternKey_def)

lemma inventoryBars_item:
  "inventoryBars [cuttingItem settings dia val] = (if pat_isInventory val then pat_count val else 0)"
  by (simp add: inventoryBars_def cuttingItem_def Let_def)

lemma inventoryBars_Cons:
  "inventoryBars (cuttingItem settings dia val # items)
     = (if pat_isInventory val then pat_count val else 0) + inventoryBars items"
  by (simp add: inventoryBars_def cuttingItem_def Let_def)

lemma addPattern_inventoryBars:
  assumes "keyedBySource pm"
  shows "keyedBySource (addPattern pm b)
       \<and> inventoryBars (map (\<lambda>(key, val). cuttingItem settings dia val) (addPattern pm b))
          = inventoryBars (map (\<lambda>(key, val). cuttingItem settings dia val) pm)
            + (if isInventory b then 1 else 0)"
proof (cases "map_of pm (patternKey b)")
  case None
  then show ?thesis using assms
    by (auto simp: addPattern_def update_absent keyedBySource_def hd_patternKey inventoryBars_item)
next
  case (Some val)
  from update_present[OF Some, of "val\<lparr>pat_count := pat_count val + 1\<rparr>"]
  obtain xs ys where al: "pm = xs @ (patternKey b, val) # ys"
    "AList.update (patternKey b) (val\<lparr>pat_count := pat_count val + 1\<rparr>) pm
       = xs @ (patternKey b, val\<lparr>pat_count := pat_count val + 1\<rparr>) # ys" by blast
  have src: "pat_isInventory val = isInventory b"
    using assms al(1) by (auto simp: keyedBySource_def hd_patternKey)
  have ap: "addPattern pm b = xs @ (patternKey b, val\<lparr>pat_count := pat_count val + 1\<rparr>) # ys"
    using Some al(2) by (simp add: addPattern_def)
  have k: "keyedBySource (addPattern pm b)"
    using assms unfolding ap by (subst (asm) al(1)) (auto simp: keyedBySource_def)
  have "inventoryBars (map (\<lambda>(key, val). cuttingItem settings dia val) (addPattern pm b))
          = inventoryBars (map (\<lambda>(key, val). cuttingItem settings dia val) (xs @ (patternKey b, val) # ys))
            + (if isInventory b then 1 else 0)"
    unfolding ap using src by (simp add: inventoryBars_Cons)
  with k al(1) show ?thesis by simp
qed

lemma foldl_addPattern_inventoryBars:
  assumes "keyedBySource pm"
  shows "inventoryBars (map (\<lambda>(key, val). cuttingItem settings dia val) (foldl addPattern pm bs))
          = inventoryBars (map (\<lambda>(key, val). cuttingItem settings dia val) pm)
            + length (filter isInventory bs)"
  using assms
proof (induction bs arbitrary: pm)
  case Nil
  then show ?case by simp
next
  case (Cons b bs)
  from addPattern_inventoryBars[OF Cons.prems, of b settings dia]
  have k: "keyedBySource (addPattern pm b)"
    and e: "inventoryBars (map (\<lambda>(key, val). cuttingItem settings dia val) (addPattern pm b))
          = inventoryBars (map (\<lambda>(key, val). cuttingItem settings dia val) pm)
            + (if isInventory b then 1 else 0)" by auto
  from Cons.IH[OF k] e show ?case by simp
qed

lemma cuttingItems_inventoryBars:
  "inventoryBars (cuttingItems settings dia bs) = length (filter isInventory bs)"
  using foldl_addPattern_inventoryBars[of "[]" settings dia bs]
  by (simp add: cuttingItems_def keyedBySource_def inventoryBars_def)

lemma sum_by_key_one:
  "distinct ds \<Longrightarrow> (\<Sum>d\<leftarrow>ds. if k = d then (n::nat) else 0) \<le> n"
  by (induction ds) auto

lemma sum_by_key:
  assumes "distinct ds"
  shows "(\<Sum>d\<leftarrow>ds. sum_list (map q (filter (\<lambda>i. f i = d) xs))) \<le> (sum_list (map q xs) :: nat)"
proof (induction xs)
  case Nil
  then show ?case by simp
next
  case (Cons x xs)
  have "(\<Sum>d\<leftarrow>ds. sum_list (map q (filter (\<lambda>i. f i = d) (x # xs))))
         = (\<Sum>d\<leftarrow>ds. (if f x = d then q x else 0) + sum_list (map q (filter (\<lambda>i. f i = d) xs)))"
    by (intro arg_cong[where f = sum_list] map_cong) auto
  also have "\<dots> = (\<Sum>d\<leftarrow>ds. if f x = d then q x else 0)
                   + (\<Sum>d\<leftarrow>ds. sum_list (map q (filter (\<lambda>i. f i = d) xs)))"
    by (simp add: sum_list_addf)
  also have "\<dots> \<le> q x + sum_list (map q xs)"
    using sum_by_key_one[OF assms, of "f x" "q x"] Cons.IH by linarith
  finally show ?case by simp
qed

lemma diaGroup_inventory_count:
  "length (filter isInventory (fst (diaGroup rnd c reqs catalog settings inventory dia)))
     \<le> sum_list (map quantity (filter (\<lambda>i. inv_dia i = dia) inventory))"
  unfolding diaGroup_def Let_def by (rule optimizeDiaGroup_inventory_count)

lemma foldl_optimizeDia_inventoryBars:
  "inventoryBars (plan_so_far (foldl (optimizeDia rnd reqs catalog settings inventory) st dias))
     \<le> inventoryBars (plan_so_far st)
        + (\<Sum>d\<leftarrow>dias. sum_list (map quantity (filter (\<lambda>i. inv_dia i = d) inventory)))"
proof (induction dias arbitrary: st)
  case Nil
  then show ?case by simp
next
  case (Cons d dias)
  let ?st = "optimizeDia rnd reqs catalog settings inventory st d"
  have "inventoryBars (plan_so_far ?st)
          \<le> inventoryBars (plan_so_far st)
             + sum_list (map quantity (filter (\<lambda>i. inv_dia i = d) inventory))"
    using diaGroup_inventory_count[of rnd "randomCount st" reqs catalog settings inventory d]
    by (simp add: optimizeDia_def Let_def cuttingItems_inventoryBars)
  with Cons.IH[of ?st] show ?case by simp
qed

lemma cuttingPlan_inventoryBars:
  "inventoryBars (cuttingPlan (optimizeCutting rnd plan directPieces runs catalog settings inventory))
     \<le> sum_list (map quantity inventory)"
proof -
  let ?reqs = "allRequests plan directPieces runs"
  have d: "distinct (uniqueDias ?reqs)" by (simp add: uniqueDias_def)
  have "inventoryBars (plan_so_far (diaLoop rnd ?reqs catalog settings inventory))
          \<le> (\<Sum>d\<leftarrow>uniqueDias ?reqs. sum_list (map quantity (filter (\<lambda>i. inv_dia i = d) inventory)))"
    unfolding diaLoop_def
    using foldl_optimizeDia_inventoryBars[of rnd ?reqs catalog settings inventory
        "\<lparr>plan_so_far = [], procurement_so_far = [], globalTotalInputLength = 0,
          globalTotalPartsLength = 0, globalTotalWeight = 0, randomCount = 0\<rparr>" "uniqueDias ?reqs"]
    by (simp add: inventoryBars_def)
  also have "\<dots> \<le> sum_list (map quantity inventory)" by (rule sum_by_key[OF d])
  finally show ?thesis by (simp add: optimizeCutting_def Let_def)
qed

text \<open>
  Claim C5. Under either strategy the inventory bins that \<open>optimizeDiaGroup\<close>
  returns can be matched one to one with distinct units of the flattened inventory of
  the same length, so no unit is consumed twice and there are at most as many
  inventory bins as the quantities of the inventory add up to. In a packing pass over
  the combined pool of the MIXED strategy the number of inventory bins is the number of
  used ids, each the expanded id of an inventory unit. Over the whole cutting plan of a
  solve the counts of the inventory items add up to at most the total quantity of the
  inventory.
\<close>

theorem inventory_uniqueness:
  "mset (map stockLength (filter isInventory
           (fst (optimizeDiaGroup rnd c requests stockOptions settings inventory))))
     \<subseteq># mset (map oc_len (flattenInventory inventory))
   \<and> length (filter isInventory (fst (optimizeDiaGroup rnd c requests stockOptions settings inventory)))
       \<le> sum_list (map quantity inventory)
   \<and> length (filter isInventory
         (bins (packingPass reqs (newStockOptions stockOptions @ inventoryOptions inventory) kerf)))
       = card (usedInventoryIds
           (packingPass reqs (newStockOptions stockOptions @ inventoryOptions inventory) kerf))
   \<and> usedInventoryIds (packingPass reqs (newStockOptions stockOptions @ inventoryOptions inventory) kerf)
       \<subseteq> oc_id ` set (flattenInventory inventory)
   \<and> inventoryBars (cuttingPlan (optimizeCutting rnd plan directPieces runs catalog settings inventory))
       \<le> sum_list (map quantity inventory)"
proof -
  let ?opts = "newStockOptions stockOptions @ inventoryOptions inventory"
  have p: "poolState ?opts (bins (packingPass reqs ?opts kerf), usedInventoryIds (packingPass reqs ?opts kerf))"
    by (rule packingPass_poolState[OF idsPresent_mixed])
  have "usedInventoryIds (packingPass reqs ?opts kerf) \<subseteq> oc_id ` set (flattenInventory inventory)"
    using p inventoryOptions_ids[of stockOptions inventory] by (simp add: poolState_def) blast
  moreover have "length (filter isInventory (bins (packingPass reqs ?opts kerf)))
      = card (usedInventoryIds (packingPass reqs ?opts kerf))"
    using p by (simp add: poolState_def invLens_def)
  ultimately show ?thesis
    using optimizeDiaGroup_inventory[of rnd c requests stockOptions settings inventory]
      optimizeDiaGroup_inventory_count[of rnd c requests stockOptions settings inventory]
      cuttingPlan_inventoryBars[of rnd plan directPieces runs catalog settings inventory]
    by (simp add: invLens_def)
qed

theorem inventory_uniqueness_witness:
  "fst (optimizeDiaGroup (\<lambda>n. 0) 0 [exampleReq 6000, exampleReq 6000, exampleReq 3000] [12000]
          exampleSettings (exampleInventory 6100 2))
     = [\<lparr>stockLength = 6100, remaining = 95, cuts = [6000], isInventory = True\<rparr>,
        \<lparr>stockLength = 6100, remaining = 95, cuts = [6000], isInventory = True\<rparr>,
        \<lparr>stockLength = 12000, remaining = 8995, cuts = [3000], isInventory = False\<rparr>]
   \<and> length (filter isInventory
         (fst (optimizeDiaGroup (\<lambda>n. 0) 0 [exampleReq 6000, exampleReq 6000, exampleReq 3000]
                 [12000] exampleSettings (exampleInventory 6100 2))))
       \<le> sum_list (map quantity (exampleInventory 6100 2))"
proof -
  have e: "fst (optimizeDiaGroup (\<lambda>n. 0) 0 [exampleReq 6000, exampleReq 6000, exampleReq 3000] [12000]
          exampleSettings (exampleInventory 6100 2))
     = [\<lparr>stockLength = 6100, remaining = 95, cuts = [6000], isInventory = True\<rparr>,
        \<lparr>stockLength = 6100, remaining = 95, cuts = [6000], isInventory = True\<rparr>,
        \<lparr>stockLength = 12000, remaining = 8995, cuts = [3000], isInventory = False\<rparr>]"
    by code_simp
  have w: "length (filter isInventory
         (fst (optimizeDiaGroup (\<lambda>n. 0) 0 [exampleReq 6000, exampleReq 6000, exampleReq 3000]
                 [12000] exampleSettings (exampleInventory 6100 2))))
       \<le> sum_list (map quantity (exampleInventory 6100 2))"
    using inventory_uniqueness[of "\<lambda>n. 0" 0 "[exampleReq 6000, exampleReq 6000, exampleReq 3000]"
        "[12000]" exampleSettings "exampleInventory 6100 2"]
    by (rule conjunct1[OF conjunct2])
  show ?thesis by (rule conjI[OF e w])
qed

end
